theory Spec2Isabelle
  imports Main "HOL-Library.Multiset"
begin

section \<open>iiod/ops.c: the data-plane operations of the IIO daemon\<close>

text \<open>
  The development follows \<^verbatim>\<open>src/iiod/ops.c\<close>. Integer widths are those of an LP64
  platform: \<^verbatim>\<open>unsigned int\<close> has 32 bits, \<^verbatim>\<open>ssize_t\<close>, \<^verbatim>\<open>size_t\<close>
  and \<^verbatim>\<open>unsigned long\<close> have 64 bits. Unsigned values are natural numbers and signed
  values are integers; a conversion or an unsigned subtraction that can wrap is written out
  with its modulus.
\<close>

subsection \<open>Error numbers and formatted output\<close>

text \<open>The Linux values of the \<^verbatim>\<open>errno.h\<close> constants that ops.c uses.\<close>

definition EIO :: int where "EIO = 5"
definition ENOMEM :: int where "ENOMEM = 12"
definition ENODEV :: int where "ENODEV = 19"
definition EINVAL :: int where "EINVAL = 22"

text \<open>Decimal output, as the conversions \<^verbatim>\<open>%i\<close> and \<^verbatim>\<open>%li\<close> of fprintf produce it.\<close>

definition digit :: "nat \<Rightarrow> char" where
  "digit d = char_of (48 + d)"

function show_nat :: "nat \<Rightarrow> string" where
  "show_nat n = (if n < 10 then [digit n] else show_nat (n div 10) @ [digit (n mod 10)])"
  by pat_completeness auto
termination
  by (relation "measure id") auto

declare show_nat.simps [simp del]

definition show_int :: "int \<Rightarrow> string" where
  "show_int i = (if i < 0 then CHR ''-'' # show_nat (nat (- i)) else show_nat (nat i))"

subsection \<open>Output streams\<close>

text \<open>
  A \<^verbatim>\<open>FILE *\<close> that is written to. \<open>chunks\<close> is the sequence of writes made on the
  stream: text formatted by fprintf, and bytes accepted from fwrite. \<open>room\<close> scripts the
  transport: its head is the number of bytes the next fwrite call can accept (0 is a call
  that makes no progress); once the script is used up, every fwrite accepts all it is given.
  ops.c never looks at what fprintf returns, so fprintf only records its text.
\<close>

datatype chunk = Printed string | Written string

record FILE =
  chunks :: "chunk list"
  room :: "nat list"

definition fprintf :: "FILE \<Rightarrow> string \<Rightarrow> FILE" where
  "fprintf stream s = stream\<lparr>chunks := chunks stream @ [Printed s]\<rparr>"

text \<open>\<^verbatim>\<open>fwrite(ptr, 1, len, out)\<close>, the bytes \<open>ptr[0..len)\<close> being the string \<open>ptr\<close>.\<close>

definition fwrite :: "string \<Rightarrow> FILE \<Rightarrow> nat \<times> FILE" where
  "fwrite ptr stream =
     (case room stream of
        [] \<Rightarrow> (length ptr, stream\<lparr>chunks := chunks stream @ [Written ptr]\<rparr>)
      | a # as \<Rightarrow>
          (if min a (length ptr) = 0 then (0, stream\<lparr>room := as\<rparr>)
           else (min a (length ptr),
                 stream\<lparr>chunks := chunks stream @ [Written (take a ptr)], room := as\<rparr>)))"

text \<open>
  \<^verbatim>\<open>write_all\<close> (lines 66-77). The first argument of the loop is \<^verbatim>\<open>ptr - src\<close>,
  the second the \<^verbatim>\<open>len\<close> bytes still to be sent.
\<close>

function write_all_loop :: "nat \<Rightarrow> string \<Rightarrow> FILE \<Rightarrow> int \<times> FILE" where
  "write_all_loop n ptr stream =
     (if ptr = [] then (int n, stream)
      else (case fwrite ptr stream of
              (k, stream') \<Rightarrow>
                if k = 0 then (- EIO, stream')
                else write_all_loop (n + k) (drop k ptr) stream'))"
  by pat_completeness auto
termination
  by (relation "measure (\<lambda>(n, ptr, stream). length ptr)") auto

declare write_all_loop.simps [simp del]

definition write_all :: "string \<Rightarrow> FILE \<Rightarrow> int \<times> FILE" where
  "write_all src stream = write_all_loop 0 src stream"

subsection \<open>The hardware abstraction\<close>

text \<open>
  The library behind \<^verbatim>\<open>../iio.h\<close> is not part of ops.c. A device is known by its
  identifier and its name; a context is the sequence of its devices. What a blocking read
  (\<^verbatim>\<open>iio_device_read_raw\<close>, \<^verbatim>\<open>iio_device_attr_read\<close>) meets is either a failure with
  an errno value, returned negated, or the bytes the device has ready, of which the call
  stores and counts at most \<open>len\<close>.
\<close>

record iio_device =
  dev_id :: string
  dev_name :: string

type_synonym iio_context = "iio_device list"

datatype hw_result = Fails nat | Gives string

fun hw_call :: "hw_result \<Rightarrow> nat \<Rightarrow> int \<times> string" where
  "hw_call (Fails e) len = (- int e, [])"
| "hw_call (Gives d) len = (int (length (take len d)), take len d)"

text \<open>\<^verbatim>\<open>get_device\<close> (lines 291-303): the first device whose id or name is \<open>ident\<close>.\<close>

definition get_device :: "iio_context \<Rightarrow> string \<Rightarrow> iio_device option" where
  "get_device c ident = find (\<lambda>dev. ident = dev_id dev \<or> ident = dev_name dev) c"

subsection \<open>Attribute reads\<close>

text \<open>
  The fields of \<^verbatim>\<open>struct parser_pdata\<close> that ops.c reads; \<open>pverbose\<close> is its
  \<^verbatim>\<open>verbose\<close> flag.
\<close>

record parser_pdata =
  ctx :: iio_context
  out :: FILE
  pverbose :: bool

text \<open>
  \<^verbatim>\<open>read_dev_attr\<close> (lines 323-354). \<open>strerror_r\<close> is the message the C library stores
  for an error number, \<open>attr_read\<close> what \<^verbatim>\<open>iio_device_attr_read\<close> meets for a device
  and an attribute. The result is the returned value and the stream afterwards.
\<close>

definition read_dev_attr ::
  "(int \<Rightarrow> string) \<Rightarrow> (iio_device \<Rightarrow> string \<Rightarrow> hw_result) \<Rightarrow> parser_pdata \<Rightarrow>
     string \<Rightarrow> string \<Rightarrow> int \<times> FILE" where
  "read_dev_attr strerror_r attr_read pdata ident attr =
     (case get_device (ctx pdata) ident of
        None \<Rightarrow>
          (if pverbose pdata
           then (- ENODEV, fprintf (out pdata) (''ERROR: '' @ strerror_r ENODEV @ ''\<newline>''))
           else (- ENODEV, fprintf (out pdata) (show_int (- ENODEV) @ ''\<newline>'')))
      | Some dev \<Rightarrow>
          (case hw_call (attr_read dev attr) 1024 of
             (ret, buf) \<Rightarrow>
               (let out1 = (if pverbose pdata \<and> ret < 0
                            then fprintf (out pdata) (''ERROR: '' @ strerror_r (- ret) @ ''\<newline>'')
                            else fprintf (out pdata) (show_int ret @ ''\<newline>''))
                in if ret < 0 then (ret, out1)
                   else (case write_all buf out1 of
                           (ret', out2) \<Rightarrow>
                             (case write_all ''\<newline>'' out2 of
                                (_, out3) \<Rightarrow> (ret', out3))))))"

subsection \<open>Sessions and waiting client threads\<close>

text \<open>
  \<^verbatim>\<open>struct ThdEntry\<close> (lines 34-42). \<open>tid\<close> stands for the address of the allocated
  entry, which is its identity in the list. \<open>err\<close> is \<open>None\<close> until the worker stores an
  outcome: read_buffer does not initialise the field. The condition variable has no state
  of its own here; an entry that was signalled is moved to the worker's \<open>signalled\<close> list.
\<close>

record ThdEntry =
  tid :: nat
  nb :: nat
  err :: "int option"
  fd :: FILE
  verbose :: bool

text \<open>Conversions between \<^verbatim>\<open>ssize_t\<close> and \<^verbatim>\<open>size_t\<close>, and the division of C.\<close>

definition to_size_t :: "int \<Rightarrow> nat" where
  "to_size_t i = nat (i mod 2 ^ 64)"

definition to_ssize_t :: "nat \<Rightarrow> int" where
  "to_ssize_t n =
     (if n mod 2 ^ 64 < 2 ^ 63 then int (n mod 2 ^ 64) else int (n mod 2 ^ 64) - 2 ^ 64)"

definition c_div :: "int \<Rightarrow> int \<Rightarrow> int" where
  "c_div a b = sgn a * sgn b * (\<bar>a\<bar> div \<bar>b\<bar>)"

text \<open>
  The batch size of a round (lines 91 and 106-109): \<^verbatim>\<open>nb_samples\<close> starts at
  \<^verbatim>\<open>max_size\<close> and is lowered by every entry that needs less.
\<close>

definition batch :: "nat \<Rightarrow> ThdEntry list \<Rightarrow> nat" where
  "batch max_size thds =
     fold (\<lambda>thd nb_samples. if nb thd < nb_samples then nb thd else nb_samples) thds max_size"

text \<open>
  The body of the broadcast loop for one entry (lines 128-161). \<open>r\<close> is \<^verbatim>\<open>ret\<close>, what
  the raw read returned, and \<open>buf\<close> the \<open>r\<close> bytes it stored. \<^verbatim>\<open>ret2\<close> is declared
  \<^verbatim>\<open>size_t\<close>: the value of write_all is converted, and the subtraction from the 32-bit
  \<^verbatim>\<open>nb\<close> wraps. The result says whether the entry was removed and signalled.
\<close>

definition deliver ::
  "(int \<Rightarrow> string) \<Rightarrow> nat \<Rightarrow> int \<Rightarrow> string \<Rightarrow> nat \<Rightarrow> ThdEntry \<Rightarrow> bool \<times> ThdEntry" where
  "deliver strerror_r sample_size r buf nb_samples thd =
     (let thd1 =
        (if \<not> verbose thd then thd\<lparr>fd := fprintf (fd thd) (show_int r @ ''\<newline>'')\<rparr>
         else if r < 0
         then thd\<lparr>fd := fprintf (fd thd) (''ERROR reading device: '' @ strerror_r r @ ''\<newline>'')\<rparr>
         else thd)
      in if r < 0 then (False, thd1)
         else if nb_samples > nb thd1 then (False, thd1)
         else (case write_all buf (fd thd1) of
                 (wr, stream) \<Rightarrow>
                   (let ret2 = to_size_t wr;
                        thd2 = thd1\<lparr>fd := stream\<rparr>;
                        thd3 = (if ret2 > 0
                                then thd2\<lparr>nb := nat ((int (nb thd2) - int (ret2 div sample_size))
                                                     mod 2 ^ 32)\<rparr>
                                else thd2)
                    in if ret2 < 0 then (True, thd3\<lparr>err := Some (to_ssize_t ret2)\<rparr>)
                       else if nb thd3 = 0 then (True, thd3\<lparr>err := Some 0\<rparr>)
                       else (False, thd3))))"

text \<open>
  The broadcast loop (lines 127-162) over the list, head first: the entries that stay, and
  the entries that were removed and signalled, both in list order.
\<close>

definition broadcast ::
  "(int \<Rightarrow> string) \<Rightarrow> nat \<Rightarrow> int \<Rightarrow> string \<Rightarrow> nat \<Rightarrow> ThdEntry list \<Rightarrow>
     ThdEntry list \<times> ThdEntry list" where
  "broadcast strerror_r sample_size r buf nb_samples thds =
     (let ds = map (deliver strerror_r sample_size r buf nb_samples) thds
      in (map snd (filter (\<lambda>d. \<not> fst d) ds), map snd (filter fst ds)))"

text \<open>The final loop (lines 168-177): every entry is removed and signalled.\<close>

definition drain :: "int \<Rightarrow> ThdEntry list \<Rightarrow> ThdEntry list" where
  "drain r thds = map (\<lambda>thd. if r < 0 then thd\<lparr>err := Some r\<rparr> else thd) thds"

subsection \<open>The reading thread\<close>

text \<open>
  What the thread does to the two mutexes and to the device is recorded in \<open>acts\<close>.
  \<open>ret\<close> is the local variable of \<^verbatim>\<open>read_thd\<close>, \<open>thdlist\<close> the list
  \<^verbatim>\<open>entry->thdlist_head\<close> of the session, \<open>signalled\<close> the entries handed back to
  their client threads so far.
\<close>

datatype lock = Devlist_lock | Thdlist_lock

datatype action = Lock lock | Unlock lock | Read_raw nat

record worker =
  thdlist :: "ThdEntry list"
  ret :: int
  signalled :: "ThdEntry list"
  acts :: "action list"

text \<open>
  What one pass of the loop meets from outside: the entries that client threads insert
  before the pass takes \<^verbatim>\<open>devlist_lock\<close>, whether malloc succeeds, the entries inserted
  while the thread is inside the raw read with no lock held, and what the device does.
  Inside the two critical sections nobody else can insert: read_buffer holds
  \<^verbatim>\<open>devlist_lock\<close> and \<^verbatim>\<open>thdlist_lock\<close> when it inserts.
\<close>

record round_env =
  joins_before :: "ThdEntry list"
  malloc_ok :: bool
  joins_during :: "ThdEntry list"
  reading :: hw_result

text \<open>\<^verbatim>\<open>SLIST_INSERT_HEAD\<close> for each new entry in turn.\<close>

definition insert_head :: "ThdEntry list \<Rightarrow> ThdEntry list \<Rightarrow> ThdEntry list" where
  "insert_head new thds = fold (#) new thds"

text \<open>Lines 120-165: the raw read with both locks released, then the broadcast.\<close>

definition loop_tail ::
  "(int \<Rightarrow> string) \<Rightarrow> nat \<Rightarrow> round_env \<Rightarrow> nat \<Rightarrow> worker \<Rightarrow> worker" where
  "loop_tail strerror_r sample_size e len w =
     (case hw_call (reading e) len of
        (r, buf) \<Rightarrow>
          (let thds = insert_head (joins_during e) (thdlist w);
               nb_samples = to_size_t (c_div r (int sample_size))
           in case broadcast strerror_r sample_size r buf nb_samples thds of
                (kept, woken) \<Rightarrow>
                  w\<lparr>thdlist := kept, ret := r, signalled := signalled w @ woken,
                    acts := acts w @ [Unlock Devlist_lock, Read_raw len,
                                      Lock Thdlist_lock, Unlock Thdlist_lock]\<rparr>))"

text \<open>
  One pass of \<^verbatim>\<open>while (true)\<close> (lines 89-166); the flag is True when the pass leaves
  the loop through a \<^verbatim>\<open>break\<close>. \<^verbatim>\<open>max_size\<close> is \<^verbatim>\<open>1024 / sample_size\<close> (line 87).
\<close>

definition loop_body ::
  "(int \<Rightarrow> string) \<Rightarrow> nat \<Rightarrow> round_env \<Rightarrow> worker \<Rightarrow> bool \<times> worker" where
  "loop_body strerror_r sample_size e w =
     (let w1 = w\<lparr>thdlist := insert_head (joins_before e) (thdlist w),
                 acts := acts w @ [Lock Devlist_lock]\<rparr>
      in if ret w1 < 0 then (True, w1)
         else if thdlist w1 = []
         then (True, w1\<lparr>acts := acts w1 @ [Lock Thdlist_lock, Unlock Thdlist_lock]\<rparr>)
         else (let nb_samples = batch (1024 div sample_size) (thdlist w1);
                   len = nb_samples * sample_size;
                   w2 = w1\<lparr>acts := acts w1 @ [Lock Thdlist_lock, Unlock Thdlist_lock]\<rparr>
               in if \<not> malloc_ok e then (True, w2\<lparr>ret := - ENOMEM\<rparr>)
                  else (False, loop_tail strerror_r sample_size e len w2)))"

text \<open>
  The loop against a finite script of passes. The flag is True when the loop was left; it
  is False when the script ran out with the thread still in the loop.
\<close>

fun read_thd_loop ::
  "(int \<Rightarrow> string) \<Rightarrow> nat \<Rightarrow> round_env list \<Rightarrow> worker \<Rightarrow> bool \<times> worker" where
  "read_thd_loop strerror_r sample_size [] w = (False, w)"
| "read_thd_loop strerror_r sample_size (e # es) w =
     (case loop_body strerror_r sample_size e w of
        (True, w') \<Rightarrow> (True, w')
      | (False, w') \<Rightarrow> read_thd_loop strerror_r sample_size es w')"

subsection \<open>The list of opened devices\<close>

text \<open>
  \<^verbatim>\<open>struct DevEntry\<close> (lines 44-58) and the global list \<^verbatim>\<open>devlist_head\<close>. A device
  pointer is compared by the device it points to. The \<open>thdlist_head\<close> of a session is
  the list that its reading thread works on as \<open>thdlist\<close>.
\<close>

record DevEntry =
  dev :: iio_device
  sample_size :: nat
  thdlist_head :: "ThdEntry list"

text \<open>\<^verbatim>\<open>SLIST_REMOVE(&devlist_head, entry, DevEntry, next)\<close> for the entry of device \<open>d\<close>.\<close>

fun remove_entry :: "iio_device \<Rightarrow> DevEntry list \<Rightarrow> DevEntry list" where
  "remove_entry d [] = []"
| "remove_entry d (e # es) = (if dev e = d then es else e # remove_entry d es)"

text \<open>
  Lines 168-187, entered with \<^verbatim>\<open>devlist_lock\<close> held: the remaining entries are
  signalled, and the session leaves the device list \<open>devs\<close>.
\<close>

definition read_thd_exit ::
  "iio_device \<Rightarrow> worker \<Rightarrow> DevEntry list \<Rightarrow> worker \<times> DevEntry list" where
  "read_thd_exit d w devs =
     (w\<lparr>thdlist := [],
        signalled := signalled w @ drain (ret w) (thdlist w),
        acts := acts w @ [Lock Thdlist_lock, Unlock Thdlist_lock, Unlock Devlist_lock]\<rparr>,
      remove_entry d devs)"

text \<open>
  The thread from a given state of its loop, against a script of passes; \<open>devs\<close> is the
  device list at the time the thread leaves the loop.
\<close>

datatype thread_state = Trapped | In_loop worker | Terminated worker "DevEntry list"

definition read_thd_from ::
  "(int \<Rightarrow> string) \<Rightarrow> nat \<Rightarrow> iio_device \<Rightarrow> round_env list \<Rightarrow> DevEntry list \<Rightarrow> worker \<Rightarrow>
     thread_state" where
  "read_thd_from strerror_r sz d es devs w =
     (case read_thd_loop strerror_r sz es w of
        (True, w') \<Rightarrow> (case read_thd_exit d w' devs of (w'', devs') \<Rightarrow> Terminated w'' devs')
      | (False, w') \<Rightarrow> In_loop w')"

text \<open>
  \<^verbatim>\<open>read_thd\<close> for the session \<open>entry\<close>. The division of line 87 traps when the
  sample size is 0. \<open>ret\<close> starts at 0 (line 84).
\<close>

definition read_thd ::
  "(int \<Rightarrow> string) \<Rightarrow> DevEntry \<Rightarrow> round_env list \<Rightarrow> DevEntry list \<Rightarrow> thread_state" where
  "read_thd strerror_r entry es devs =
     (if sample_size entry = 0 then Trapped
      else read_thd_from strerror_r (sample_size entry) (dev entry) es devs
             \<lparr>thdlist = thdlist_head entry, ret = 0, signalled = [], acts = []\<rparr>)"

text \<open>The state of the worker that a thread state holds.\<close>

fun final :: "thread_state \<Rightarrow> worker" where
  "final Trapped = \<lparr>thdlist = [], ret = 0, signalled = [], acts = []\<rparr>"
| "final (In_loop w) = w"
| "final (Terminated w devs) = w"

subsection \<open>Streaming reads\<close>

text \<open>
  What \<^verbatim>\<open>read_buffer\<close> meets from outside: the address of the ThdEntry it allocates
  (\<open>None\<close> when malloc fails), whether the DevEntry can be allocated, and what
  \<^verbatim>\<open>iio_device_open\<close> and \<^verbatim>\<open>pthread_create\<close> return.
\<close>

record attach_env =
  thd_alloc :: "nat option"
  entry_alloc :: bool
  open_ret :: int
  create_ret :: int

datatype hw_event = Open iio_device | Close iio_device

datatype attach = Returned int | Waiting ThdEntry

text \<open>\<^verbatim>\<open>SLIST_INSERT_HEAD(&entry->thdlist_head, thd, next)\<close> for the entry found for \<open>d\<close>.\<close>

fun insert_thd :: "iio_device \<Rightarrow> ThdEntry \<Rightarrow> DevEntry list \<Rightarrow> DevEntry list" where
  "insert_thd d thd [] = []"
| "insert_thd d thd (e # es) =
     (if dev e = d then e\<lparr>thdlist_head := thd # thdlist_head e\<rparr> # es
      else e # insert_thd d thd es)"

text \<open>
  \<^verbatim>\<open>read_buffer\<close> up to the point where it waits (lines 201-278): either it has
  returned a value, or its entry is in the list of the session and the client thread
  waits. With the result come the device list afterwards and the calls made on devices.
\<close>

definition read_buffer_attach ::
  "attach_env \<Rightarrow> DevEntry list \<Rightarrow> parser_pdata \<Rightarrow> iio_device \<Rightarrow> nat \<Rightarrow> nat \<Rightarrow>
     attach \<times> DevEntry list \<times> hw_event list" where
  "read_buffer_attach env devs pdata d n sz =
     (let entry = find (\<lambda>e. dev e = d) devs
      in if (case entry of Some e \<Rightarrow> sample_size e \<noteq> sz | None \<Rightarrow> False)
         then (Returned (- EINVAL), devs, [])
         else (case thd_alloc env of
                 None \<Rightarrow> (Returned (- ENOMEM), devs, [])
               | Some a \<Rightarrow>
                   (let thd = \<lparr>tid = a, nb = n, err = None, fd = out pdata,
                               verbose = pverbose pdata\<rparr>
                    in case entry of
                         None \<Rightarrow>
                           (if \<not> entry_alloc env then (Returned (- ENOMEM), devs, [])
                            else if open_ret env \<noteq> 0 then (Returned (open_ret env), devs, [Open d])
                            else if create_ret env \<noteq> 0
                            then (Returned (create_ret env), devs, [Open d, Close d])
                            else (Waiting thd,
                                  \<lparr>dev = d, sample_size = sz, thdlist_head = [thd]\<rparr> # devs,
                                  [Open d]))
                       | Some e \<Rightarrow> (Waiting thd, insert_thd d thd devs, []))))"

text \<open>
  The end of \<^verbatim>\<open>read_buffer\<close> (lines 280-288), once the entry was signalled: the product
  is one of two \<^verbatim>\<open>unsigned int\<close>. There is no value when \<open>err\<close> was never stored.
\<close>

definition read_buffer_return :: "nat \<Rightarrow> nat \<Rightarrow> ThdEntry \<Rightarrow> int option" where
  "read_buffer_return n sz thd =
     (case err thd of
        None \<Rightarrow> None
      | Some e \<Rightarrow> Some (if e < 0 then e else int ((n * sz) mod 2 ^ 32)))"

text \<open>
  \<^verbatim>\<open>read_dev\<close> (lines 305-321) up to the point where read_buffer waits; the stream is
  the sink of the request afterwards.
\<close>

definition read_dev ::
  "(int \<Rightarrow> string) \<Rightarrow> attach_env \<Rightarrow> DevEntry list \<Rightarrow> parser_pdata \<Rightarrow> string \<Rightarrow> nat \<Rightarrow> nat \<Rightarrow>
     (attach \<times> DevEntry list \<times> hw_event list) \<times> FILE" where
  "read_dev strerror_r env devs pdata ident n sz =
     (case get_device (ctx pdata) ident of
        None \<Rightarrow>
          (if pverbose pdata
           then ((Returned (- ENODEV), devs, []),
                 fprintf (out pdata) (''ERROR: '' @ strerror_r ENODEV @ ''\<newline>''))
           else ((Returned (- ENODEV), devs, []),
                 fprintf (out pdata) (show_int (- ENODEV) @ ''\<newline>'')))
      | Some d \<Rightarrow> (read_buffer_attach env devs pdata d n sz, out pdata))"

subsection \<open>Reading the record of a thread\<close>

text \<open>The lengths of the raw reads in a record, and the locks held after it.\<close>

definition reads :: "action list \<Rightarrow> nat list" where
  "reads as = concat (map (\<lambda>a. case a of Read_raw len \<Rightarrow> [len] | _ \<Rightarrow> []) as)"

fun held_after :: "lock list \<Rightarrow> action list \<Rightarrow> lock list" where
  "held_after held [] = held"
| "held_after held (Lock l # as) = held_after (l # held) as"
| "held_after held (Unlock l # as) = held_after (remove1 l held) as"
| "held_after held (Read_raw len # as) = held_after held as"

text \<open>
  A record respects the discipline when the thread locks only a mutex it does not hold,
  unlocks only one it holds, and holds none when it enters the raw read.
\<close>

fun disciplined :: "lock list \<Rightarrow> action list \<Rightarrow> bool" where
  "disciplined held [] = True"
| "disciplined held (Lock l # as) = (l \<notin> set held \<and> disciplined (l # held) as)"
| "disciplined held (Unlock l # as) = (l \<in> set held \<and> disciplined (remove1 l held) as)"
| "disciplined held (Read_raw len # as) = (held = [] \<and> disciplined held as)"

text \<open>In a record every raw read is followed at once by the lock of \<^verbatim>\<open>thdlist_lock\<close>.\<close>

fun relocked :: "action list \<Rightarrow> bool" where
  "relocked [] = True"
| "relocked (Read_raw len # as) =
     ((case as of [] \<Rightarrow> False | a # _ \<Rightarrow> a = Lock Thdlist_lock) \<and> relocked as)"
| "relocked (Lock l # as) = relocked as"
| "relocked (Unlock l # as) = relocked as"

text \<open>The bytes that fwrite accepted on a stream.\<close>

definition payload :: "FILE \<Rightarrow> nat" where
  "payload stream =
     sum_list (map (\<lambda>c. case c of Written bs \<Rightarrow> length bs | Printed s \<Rightarrow> 0) (chunks stream))"

text \<open>The lines that fprintf put on a stream.\<close>

definition printed :: "FILE \<Rightarrow> string list" where
  "printed stream =
     concat (map (\<lambda>c. case c of Printed s \<Rightarrow> [s] | Written bs \<Rightarrow> []) (chunks stream))"

text \<open>
  Every entry of the list is related by \<open>K\<close>, and every signalled entry by \<open>S\<close>, to an
  entry of \<open>A\<close>.
\<close>

definition sim ::
  "(ThdEntry \<Rightarrow> ThdEntry \<Rightarrow> bool) \<Rightarrow> (ThdEntry \<Rightarrow> ThdEntry \<Rightarrow> bool) \<Rightarrow> ThdEntry set \<Rightarrow>
     worker \<Rightarrow> bool" where
  "sim K S A w \<longleftrightarrow>
     (\<forall>t\<in>set (thdlist w). \<exists>t0\<in>A. K t0 t) \<and> (\<forall>t\<in>set (signalled w). \<exists>t0\<in>A. S t0 t)"

text \<open>The identities of the entries a thread has in its list or has signalled.\<close>

definition tids :: "worker \<Rightarrow> nat multiset" where
  "tids w = mset (map tid (thdlist w)) + mset (map tid (signalled w))"

text \<open>Whether the thread has returned.\<close>

fun terminated :: "thread_state \<Rightarrow> bool" where
  "terminated (Terminated w devs) = True"
| "terminated _ = False"

text \<open>A pass whose raw read, if it succeeds, has a whole number of samples ready.\<close>

definition whole_samples :: "nat \<Rightarrow> round_env \<Rightarrow> bool" where
  "whole_samples sz e = (case reading e of Gives data \<Rightarrow> sz dvd length data | Fails x \<Rightarrow> True)"

text \<open>
  A pass in which malloc succeeds and the device has at least one sample, and a whole
  number of samples, ready for the raw read.
\<close>

definition device_ready :: "nat \<Rightarrow> round_env \<Rightarrow> bool" where
  "device_ready sz e =
     (malloc_ok e \<and>
      (case reading e of Gives data \<Rightarrow> sz dvd length data \<and> sz \<le> length data
                       | Fails x \<Rightarrow> False))"

text \<open>
  An entry whose sink refuses no write and whose \<open>nb\<close> is in the range of
  \<^verbatim>\<open>unsigned int\<close>.
\<close>

definition proper :: "ThdEntry \<Rightarrow> bool" where
  "proper t = (0 \<notin> set (room (fd t)) \<and> nb t < 2 ^ 32)"

text \<open>
  A bound on the passes that the entries of a list can stay in it: each entry leaves
  after at most \<open>nb + 1\<close> passes that bring data.
\<close>

definition owed :: "ThdEntry list \<Rightarrow> nat" where
  "owed thds = sum_list (map (\<lambda>t. nb t + 1) thds)"

text \<open>The entries that a script inserts.\<close>

definition joined :: "round_env list \<Rightarrow> ThdEntry list" where
  "joined es = concat (map (\<lambda>e. joins_before e @ joins_during e) es)"

subsection \<open>A small session\<close>

text \<open>
  Two requests on one device with samples of 4 bytes: \<open>req_A\<close> asks for 3 samples and is
  not verbose, \<open>req_B\<close> asks for 2 and is verbose. In \<open>script_AB\<close> the thread starts with
  \<open>req_A\<close> alone, \<open>req_B\<close> arrives during the first raw read, and the device has data
  for two reads.
\<close>

definition adc :: iio_device where
  "adc = \<lparr>dev_id = ''iio:device0'', dev_name = ''adc''\<rparr>"

definition req_A :: ThdEntry where
  "req_A = \<lparr>tid = 1, nb = 3, err = None, fd = \<lparr>chunks = [], room = []\<rparr>, verbose = False\<rparr>"

definition req_B :: ThdEntry where
  "req_B = \<lparr>tid = 2, nb = 2, err = None, fd = \<lparr>chunks = [], room = []\<rparr>, verbose = True\<rparr>"

definition session_A :: DevEntry where
  "session_A = \<lparr>dev = adc, sample_size = 4, thdlist_head = [req_A]\<rparr>"

definition script_AB :: "round_env list" where
  "script_AB =
     [\<lparr>joins_before = [], malloc_ok = True, joins_during = [req_B],
       reading = Gives ''0123456789ab''\<rparr>,
      \<lparr>joins_before = [], malloc_ok = True, joins_during = [],
       reading = Gives ''cdefghijklmnopqr''\<rparr>,
      \<lparr>joins_before = [], malloc_ok = True, joins_during = [], reading = Gives []\<rparr>]"

definition strerror_none :: "int \<Rightarrow> string" where
  "strerror_none e = ''Unknown error''"

text \<open>
  \<open>req_C\<close> is \<open>req_A\<close> on a sink whose next fwrite accepts nothing; \<open>pdata_C\<close> is the
  parser state of a non-verbose client that knows the device.
\<close>

definition req_C :: ThdEntry where
  "req_C = \<lparr>tid = 3, nb = 3, err = None, fd = \<lparr>chunks = [], room = [0]\<rparr>, verbose = False\<rparr>"

definition pdata_C :: parser_pdata where
  "pdata_C = \<lparr>ctx = [adc], out = \<lparr>chunks = [], room = []\<rparr>, pverbose = False\<rparr>"

definition env_ok :: attach_env where
  "env_ok = \<lparr>thd_alloc = Some 7, entry_alloc = True, open_ret = 0, create_ret = 0\<rparr>"

text \<open>
  In \<open>script_fail\<close> the first raw read fails with EIO while \<open>req_B\<close> arrives; \<open>w_A\<close> is
  the thread of \<open>session_A\<close> as it enters its loop.
\<close>

definition script_fail :: "round_env list" where
  "script_fail =
     [\<lparr>joins_before = [], malloc_ok = True, joins_during = [req_B], reading = Fails 5\<rparr>,
      \<lparr>joins_before = [], malloc_ok = True, joins_during = [], reading = Gives []\<rparr>]"

definition w_A :: worker where
  "w_A = \<lparr>thdlist = [req_A], ret = 0, signalled = [], acts = []\<rparr>"

text \<open>
  \<open>session_B\<close> holds \<open>req_B\<close> alone. In \<open>script_short\<close> the device has 7 bytes for the
  first raw read, which is not a whole number of samples, and 4 for the second.
\<close>

definition session_B :: DevEntry where
  "session_B = \<lparr>dev = adc, sample_size = 4, thdlist_head = [req_B]\<rparr>"

definition script_short :: "round_env list" where
  "script_short =
     [\<lparr>joins_before = [], malloc_ok = True, joins_during = [], reading = Gives ''0123456''\<rparr>,
      \<lparr>joins_before = [], malloc_ok = True, joins_during = [], reading = Gives ''789a''\<rparr>]"

text \<open>
  \<open>script_idle\<close> is eight passes in which nobody arrives and the device has 16 bytes
  ready. \<open>session_wide\<close> is \<open>req_A\<close> on a device whose samples have 2048 bytes.
\<close>

definition script_idle :: "round_env list" where
  "script_idle =
     replicate 8 \<lparr>joins_before = [], malloc_ok = True, joins_during = [],
                  reading = Gives ''cdefghijklmnopqr''\<rparr>"

definition session_wide :: DevEntry where
  "session_wide = \<lparr>dev = adc, sample_size = 2048, thdlist_head = [req_A]\<rparr>"

section \<open>Properties\<close>

subsection \<open>Formatted numbers\<close>

lemma show_int_minus_19: "show_int (- 19) = ''-19''"
  by code_simp

subsection \<open>Attribute read on an unknown device\<close>

text \<open>
  C8. An attribute read whose device id resolves to no device returns \<open>-19\<close> (minus ENODEV)
  and makes exactly one write on the sink: in non-verbose mode the line \<open>-19\<close>, in verbose
  mode the line \<open>ERROR: <message>\<close> with the C library's message for ENODEV and no numeric
  code after it.
\<close>

theorem read_dev_attr_unknown_device:
  assumes "get_device (ctx pdata) ident = None"
  shows "read_dev_attr strerror_r attr_read pdata ident attr =
           (- 19, (out pdata)\<lparr>chunks := chunks (out pdata) @
              [Printed (if pverbose pdata then ''ERROR: '' @ strerror_r 19 @ ''\<newline>''
                        else ''-19\<newline>'')]\<rparr>)"
  using assms by (simp add: read_dev_attr_def fprintf_def ENODEV_def show_int_minus_19)

theorem read_dev_attr_unknown_device_witness:
  "get_device [\<lparr>dev_id = ''iio:device0'', dev_name = ''adc''\<rparr>] ''iio:device7'' = None
   \<and> read_dev_attr (\<lambda>e. ''No such device'') (\<lambda>d a. Gives ''1'')
        \<lparr>ctx = [\<lparr>dev_id = ''iio:device0'', dev_name = ''adc''\<rparr>],
         out = \<lparr>chunks = [], room = []\<rparr>, pverbose = False\<rparr> ''iio:device7'' ''scale''
      = (- 19, \<lparr>chunks = [Printed ''-19\<newline>''], room = []\<rparr>)
   \<and> read_dev_attr (\<lambda>e. ''No such device'') (\<lambda>d a. Gives ''1'')
        \<lparr>ctx = [\<lparr>dev_id = ''iio:device0'', dev_name = ''adc''\<rparr>],
         out = \<lparr>chunks = [], room = []\<rparr>, pverbose = True\<rparr> ''iio:device7'' ''scale''
      = (- 19, \<lparr>chunks = [Printed ''ERROR: No such device\<newline>''], room = []\<rparr>)"
proof -
  have none: "get_device [\<lparr>dev_id = ''iio:device0'', dev_name = ''adc''\<rparr>] ''iio:device7'' = None"
    by (simp add: get_device_def)
  show ?thesis
    using none
      read_dev_attr_unknown_device [of "\<lparr>ctx = [\<lparr>dev_id = ''iio:device0'', dev_name = ''adc''\<rparr>],
         out = \<lparr>chunks = [], room = []\<rparr>, pverbose = False\<rparr>" "''iio:device7''"
         "\<lambda>e. ''No such device''" "\<lambda>d a. Gives ''1''" "''scale''"]
      read_dev_attr_unknown_device [of "\<lparr>ctx = [\<lparr>dev_id = ''iio:device0'', dev_name = ''adc''\<rparr>],
         out = \<lparr>chunks = [], room = []\<rparr>, pverbose = True\<rparr>" "''iio:device7''"
         "\<lambda>e. ''No such device''" "\<lambda>d a. Gives ''1''" "''scale''"]
    by simp
qed

subsection \<open>Streams\<close>

lemma fprintf_simps [simp]:
  "chunks (fprintf f s) = chunks f @ [Printed s]"
  "room (fprintf f s) = room f"
  "payload (fprintf f s) = payload f"
  "printed (fprintf f s) = printed f @ [s]"
  by (simp_all add: fprintf_def payload_def printed_def)

lemma fwrite_cases:
  assumes "fwrite ptr f = (k, f')"
  shows "k \<le> length ptr \<and> payload f' = payload f + k \<and> printed f' = printed f
         \<and> set (room f') \<subseteq> set (room f) \<and> (0 \<notin> set (room f) \<and> ptr \<noteq> [] \<longrightarrow> 0 < k)"
  using assms
  by (auto simp: fwrite_def payload_def printed_def min_def split: list.splits if_splits)

lemma write_all_loop_printed:
  "write_all_loop n ptr f = (wr, f') \<Longrightarrow> printed f' = printed f"
proof (induction n ptr f rule: write_all_loop.induct)
  case (1 n ptr f)
  show ?case
  proof (cases "ptr = []")
    case True
    with "1.prems" show ?thesis by (simp add: write_all_loop.simps)
  next
    case False
    obtain k g where fw: "fwrite ptr f = (k, g)" by (cases "fwrite ptr f")
    show ?thesis
    proof (cases "k = 0")
      case True
      with False fw "1.prems" fwrite_cases [OF fw] show ?thesis
        by (simp add: write_all_loop.simps [of n ptr f])
    next
      case k: False
      with False fw "1.prems" have "write_all_loop (n + k) (drop k ptr) g = (wr, f')"
        by (simp add: write_all_loop.simps [of n ptr f])
      with "1.IH" [OF False fw [symmetric] k] fwrite_cases [OF fw] show ?thesis by simp
    qed
  qed
qed

lemma write_all_loop_good:
  "0 \<notin> set (room f) \<Longrightarrow>
     \<exists>f'. write_all_loop n ptr f = (int (n + length ptr), f') \<and> 0 \<notin> set (room f')
          \<and> payload f' = payload f + length ptr"
proof (induction n ptr f rule: write_all_loop.induct)
  case (1 n ptr f)
  show ?case
  proof (cases "ptr = []")
    case True
    with "1.prems" show ?thesis by (simp add: write_all_loop.simps)
  next
    case False
    obtain k g where fw: "fwrite ptr f = (k, g)" by (cases "fwrite ptr f")
    from fwrite_cases [OF fw] False "1.prems"
    have k: "k \<noteq> 0" "k \<le> length ptr" and g: "0 \<notin> set (room g)" "payload g = payload f + k"
      by auto
    from "1.IH" [OF False fw [symmetric] k(1) g(1)]
    obtain f' where "write_all_loop (n + k) (drop k ptr) g = (int (n + k + length (drop k ptr)), f')"
      "0 \<notin> set (room f')" "payload f' = payload g + length (drop k ptr)" by blast
    with False fw k g show ?thesis
      by (simp add: write_all_loop.simps [of n ptr f])
  qed
qed

lemma write_all_loop_code [code]:
  "write_all_loop n ptr stream =
     (if ptr = [] then (int n, stream)
      else if fst (fwrite ptr stream) = 0 then (- EIO, snd (fwrite ptr stream))
      else write_all_loop (n + fst (fwrite ptr stream)) (drop (fst (fwrite ptr stream)) ptr)
             (snd (fwrite ptr stream)))"
  by (subst write_all_loop.simps) (simp split: prod.splits)

lemma write_all_Nil [simp]: "write_all [] f = (0, f)"
  by (simp add: write_all_def write_all_loop.simps)

lemma write_all_printed: "write_all buf f = (wr, f') \<Longrightarrow> printed f' = printed f"
  unfolding write_all_def by (rule write_all_loop_printed)

lemma write_all_good:
  assumes "0 \<notin> set (room f)"
  obtains f' where "write_all buf f = (int (length buf), f')" "0 \<notin> set (room f')"
    "payload f' = payload f + length buf"
  using write_all_loop_good [OF assms, of 0 buf] unfolding write_all_def by auto

subsection \<open>Batch size\<close>

lemma Min_insert_min:
  "finite S \<Longrightarrow> Min (insert (min a (m::nat)) S) = Min (insert m (insert a S))"
  by (cases "S = {}") (auto simp: min.commute min.left_commute)

lemma batch_Min: "batch m thds = Min (insert m (nb ` set thds))"
  unfolding batch_def
proof (induction thds arbitrary: m)
  case Nil
  then show ?case by simp
next
  case (Cons t ts)
  have "(if nb t < m then nb t else m) = min (nb t) m"
    by (simp add: min_def)
  then show ?case
    using Cons.IH [of "min (nb t) m"] Min_insert_min [of "nb ` set ts" "nb t" m] by simp
qed

lemma batch_le: "batch m thds \<le> m"
  by (simp add: batch_Min)

lemma batch_bytes_le: "batch (1024 div sz) thds * sz \<le> 1024"
proof -
  have "batch (1024 div sz) thds * sz \<le> (1024 div sz) * sz"
    by (rule mult_le_mono1) (rule batch_le)
  also have "\<dots> \<le> 1024" by simp
  finally show ?thesis .
qed

subsection \<open>Records of actions\<close>

lemma reads_append [simp]: "reads (xs @ ys) = reads xs @ reads ys"
  by (simp add: reads_def)

lemma reads_simps [simp]:
  "reads [] = []"
  "reads (Lock l # as) = reads as"
  "reads (Unlock l # as) = reads as"
  "reads (Read_raw len # as) = len # reads as"
  by (simp_all add: reads_def)

lemma held_after_append [simp]: "held_after h (xs @ ys) = held_after (held_after h xs) ys"
  by (induction h xs rule: held_after.induct) simp_all

lemma disciplined_append [simp]:
  "disciplined h (xs @ ys) = (disciplined h xs \<and> disciplined (held_after h xs) ys)"
  by (induction h xs rule: disciplined.induct) auto

lemma relocked_append: "relocked xs \<Longrightarrow> relocked ys \<Longrightarrow> relocked (xs @ ys)"
  by (induction xs rule: relocked.induct) (auto split: list.splits)

lemma acts_loop_tail [simp]:
  "acts (loop_tail se sz e len w) =
     acts w @ [Unlock Devlist_lock, Read_raw len, Lock Thdlist_lock, Unlock Thdlist_lock]"
  by (simp add: loop_tail_def Let_def split: prod.splits)

lemma acts_loop_body:
  "acts (snd (loop_body se sz e w)) = acts w @
     (if ret w < 0 then [Lock Devlist_lock]
      else if insert_head (joins_before e) (thdlist w) = [] \<or> \<not> malloc_ok e
      then [Lock Devlist_lock, Lock Thdlist_lock, Unlock Thdlist_lock]
      else [Lock Devlist_lock, Lock Thdlist_lock, Unlock Thdlist_lock, Unlock Devlist_lock,
            Read_raw (batch (1024 div sz) (insert_head (joins_before e) (thdlist w)) * sz),
            Lock Thdlist_lock, Unlock Thdlist_lock])"
  by (simp add: loop_body_def Let_def)

lemma fst_loop_body:
  "fst (loop_body se sz e w) =
     (ret w < 0 \<or> insert_head (joins_before e) (thdlist w) = [] \<or> \<not> malloc_ok e)"
  by (simp add: loop_body_def Let_def)

lemma loop_body_disciplined:
  assumes "disciplined [] (acts w)" and "held_after [] (acts w) = []"
  shows "disciplined [] (acts (snd (loop_body se sz e w)))"
    and "held_after [] (acts (snd (loop_body se sz e w))) =
           (if fst (loop_body se sz e w) then [Devlist_lock] else [])"
  using assms by (simp_all add: acts_loop_body fst_loop_body)

lemma loop_body_reads_le:
  assumes "\<forall>len\<in>set (reads (acts w)). len \<le> 1024"
  shows "\<forall>len\<in>set (reads (acts (snd (loop_body se sz e w)))). len \<le> 1024"
  using assms batch_bytes_le by (auto simp add: acts_loop_body)

lemma loop_body_relocked:
  assumes "relocked (acts w)"
  shows "relocked (acts (snd (loop_body se sz e w)))"
  unfolding acts_loop_body by (rule relocked_append [OF assms]) simp

lemma read_thd_loop_relocked:
  assumes "relocked (acts w)"
  shows "relocked (acts (snd (read_thd_loop se sz es w)))"
  using assms
proof (induction es arbitrary: w)
  case Nil
  then show ?case by simp
next
  case (Cons e es)
  obtain b w' where lb: "loop_body se sz e w = (b, w')" by (cases "loop_body se sz e w")
  from loop_body_relocked [OF Cons.prems, of se sz e] lb have r: "relocked (acts w')" by simp
  show ?case
  proof (cases b)
    case True
    with lb r show ?thesis by simp
  next
    case False
    from Cons.IH [OF r] lb False show ?thesis by simp
  qed
qed

lemma read_thd_loop_disciplined:
  assumes "disciplined [] (acts w)" and "held_after [] (acts w) = []"
  shows "disciplined [] (acts (snd (read_thd_loop se sz es w)))
         \<and> held_after [] (acts (snd (read_thd_loop se sz es w))) =
           (if fst (read_thd_loop se sz es w) then [Devlist_lock] else [])"
  using assms
proof (induction es arbitrary: w)
  case Nil
  then show ?case by simp
next
  case (Cons e es)
  obtain b w' where lb: "loop_body se sz e w = (b, w')" by (cases "loop_body se sz e w")
  from loop_body_disciplined [OF Cons.prems, of se sz e] lb
  have d: "disciplined [] (acts w')" and h: "held_after [] (acts w') = (if b then [Devlist_lock] else [])"
    by simp_all
  show ?case
  proof (cases b)
    case True
    with lb d h show ?thesis by simp
  next
    case False
    with h have "held_after [] (acts w') = []" by simp
    from Cons.IH [OF d this] lb False show ?thesis by simp
  qed
qed

lemma read_thd_loop_reads_le:
  assumes "\<forall>len\<in>set (reads (acts w)). len \<le> 1024"
  shows "\<forall>len\<in>set (reads (acts (snd (read_thd_loop se sz es w)))). len \<le> 1024"
  using assms
proof (induction es arbitrary: w)
  case Nil
  then show ?case by simp
next
  case (Cons e es)
  obtain b w' where lb: "loop_body se sz e w = (b, w')" by (cases "loop_body se sz e w")
  from loop_body_reads_le [OF Cons.prems, of se sz e] lb
  have r: "\<forall>len\<in>set (reads (acts w')). len \<le> 1024" by simp
  show ?case
  proof (cases b)
    case True
    with lb r show ?thesis by simp
  next
    case False
    from Cons.IH [OF r] lb False show ?thesis by simp
  qed
qed

subsection \<open>Entries followed through the loop\<close>

lemma sim_mono: "sim K S A w \<Longrightarrow> A \<subseteq> B \<Longrightarrow> sim K S B w"
  unfolding sim_def by blast

lemma set_insert_head [simp]: "set (insert_head new thds) = set new \<union> set thds"
proof -
  have "fold (#) new thds = rev new @ thds" for new thds :: "ThdEntry list"
    by (induction new arbitrary: thds) simp_all
  then show ?thesis by (simp add: insert_head_def)
qed

lemma insert_head_eq: "insert_head new thds = rev new @ thds"
proof -
  have "fold (#) new thds = rev new @ thds" for new thds :: "ThdEntry list"
    by (induction new arbitrary: thds) simp_all
  then show ?thesis by (simp add: insert_head_def)
qed

lemma broadcast_kept:
  assumes "broadcast se sz r buf nbs thds = (kept, woken)" and "t' \<in> set kept"
  obtains t where "t \<in> set thds" and "deliver se sz r buf nbs t = (False, t')"
  using assms by (auto simp: broadcast_def Let_def) (metis prod.collapse)

lemma broadcast_woken:
  assumes "broadcast se sz r buf nbs thds = (kept, woken)" and "t' \<in> set woken"
  obtains t where "t \<in> set thds" and "deliver se sz r buf nbs t = (True, t')"
  using assms by (auto simp: broadcast_def Let_def) (metis prod.collapse)

lemma broadcast_sim:
  assumes src: "\<forall>t\<in>set thds. \<exists>t0\<in>A. K t0 t"
    and step: "\<And>t0 t rm t'. K t0 t \<Longrightarrow> deliver se sz r buf nbs t = (rm, t') \<Longrightarrow>
                 (if rm then S t0 t' else K t0 t')"
    and bc: "broadcast se sz r buf nbs thds = (kept, woken)"
  shows "(\<forall>t\<in>set kept. \<exists>t0\<in>A. K t0 t) \<and> (\<forall>t\<in>set woken. \<exists>t0\<in>A. S t0 t)"
proof (intro conjI ballI)
  fix t' assume "t' \<in> set kept"
  with bc obtain t where t: "t \<in> set thds" "deliver se sz r buf nbs t = (False, t')"
    by (rule broadcast_kept)
  from src t(1) obtain t0 where "t0 \<in> A" "K t0 t" by blast
  with step [OF this(2) t(2)] show "\<exists>t0\<in>A. K t0 t'" by auto
next
  fix t' assume "t' \<in> set woken"
  with bc obtain t where t: "t \<in> set thds" "deliver se sz r buf nbs t = (True, t')"
    by (rule broadcast_woken)
  from src t(1) obtain t0 where "t0 \<in> A" "K t0 t" by blast
  with step [OF this(2) t(2)] show "\<exists>t0\<in>A. S t0 t'" by auto
qed

lemma sim_updates [simp]:
  "sim K S A (w\<lparr>acts := a\<rparr>) = sim K S A w"
  "sim K S A (w\<lparr>ret := x\<rparr>) = sim K S A w"
  by (simp_all add: sim_def)

lemma sim_joins:
  assumes "sim K S A w" and "\<And>t. K t t"
  shows "sim K S (A \<union> set new) (w\<lparr>thdlist := insert_head new (thdlist w)\<rparr>)"
  using assms unfolding sim_def by auto

lemma loop_tail_sim:
  assumes w: "sim K S A w"
    and refl: "\<And>t. K t t"
    and step: "\<And>r buf t0 t rm t'. hw_call (reading e) len = (r, buf) \<Longrightarrow> K t0 t \<Longrightarrow>
                 deliver se sz r buf (to_size_t (c_div r (int sz))) t = (rm, t') \<Longrightarrow>
                 (if rm then S t0 t' else K t0 t')"
  shows "sim K S (A \<union> set (joins_during e)) (loop_tail se sz e len w)"
proof -
  obtain r buf where hw: "hw_call (reading e) len = (r, buf)" by (cases "hw_call (reading e) len")
  let ?thds = "insert_head (joins_during e) (thdlist w)"
  let ?A = "A \<union> set (joins_during e)"
  obtain kept woken
    where bc: "broadcast se sz r buf (to_size_t (c_div r (int sz))) ?thds = (kept, woken)"
    by (cases "broadcast se sz r buf (to_size_t (c_div r (int sz))) ?thds")
  have src: "\<forall>t\<in>set ?thds. \<exists>t0\<in>?A. K t0 t"
    using w refl unfolding sim_def by auto
  have "(\<forall>t\<in>set kept. \<exists>t0\<in>?A. K t0 t) \<and> (\<forall>t\<in>set woken. \<exists>t0\<in>?A. S t0 t)"
  proof (rule broadcast_sim [OF src _ bc])
    fix t0 t rm t'
    assume "K t0 t" "deliver se sz r buf (to_size_t (c_div r (int sz))) t = (rm, t')"
    then show "if rm then S t0 t' else K t0 t'" by (rule step [OF hw])
  qed
  moreover have "\<forall>t\<in>set (signalled w). \<exists>t0\<in>?A. S t0 t"
    using w unfolding sim_def by blast
  ultimately show ?thesis
    using hw bc by (auto simp: loop_tail_def Let_def sim_def)
qed

lemma loop_body_sim:
  assumes w: "sim K S A w"
    and refl: "\<And>t. K t t"
    and step: "\<And>len r buf t0 t rm t'. sz dvd len \<Longrightarrow> len \<le> 1024 \<Longrightarrow>
                 hw_call (reading e) len = (r, buf) \<Longrightarrow> K t0 t \<Longrightarrow>
                 deliver se sz r buf (to_size_t (c_div r (int sz))) t = (rm, t') \<Longrightarrow>
                 (if rm then S t0 t' else K t0 t')"
  shows "sim K S (A \<union> set (joins_before e) \<union> set (joins_during e)) (snd (loop_body se sz e w))"
proof -
  let ?w1 = "w\<lparr>thdlist := insert_head (joins_before e) (thdlist w)\<rparr>"
  let ?B = "A \<union> set (joins_before e)"
  let ?len = "batch (1024 div sz) (thdlist ?w1) * sz"
  have w1: "sim K S ?B ?w1"
    by (rule sim_joins [OF w refl])
  then have w1': "sim K S (?B \<union> set (joins_during e)) ?w1"
    by (rule sim_mono) simp
  show ?thesis
  proof (cases "fst (loop_body se sz e w)")
    case True
    then have "thdlist (snd (loop_body se sz e w)) = thdlist ?w1"
      and "signalled (snd (loop_body se sz e w)) = signalled ?w1"
      by (auto simp: loop_body_def Let_def split: if_splits)
    then show ?thesis using w1' by (simp add: sim_def)
  next
    case False
    let ?a = "acts w @ [Lock Devlist_lock, Lock Thdlist_lock, Unlock Thdlist_lock]"
    from False
    have eq: "snd (loop_body se sz e w) = loop_tail se sz e ?len (?w1\<lparr>acts := ?a\<rparr>)"
      by (auto simp: loop_body_def Let_def split: if_splits)
    have "sim K S (?B \<union> set (joins_during e)) (loop_tail se sz e ?len (?w1\<lparr>acts := ?a\<rparr>))"
    proof (rule loop_tail_sim [OF _ refl])
      show "sim K S ?B (?w1\<lparr>acts := ?a\<rparr>)" using w1 by simp
    next
      fix r buf t0 t rm t'
      assume "hw_call (reading e) ?len = (r, buf)" "K t0 t"
        "deliver se sz r buf (to_size_t (c_div r (int sz))) t = (rm, t')"
      then show "if rm then S t0 t' else K t0 t'"
        by (rule step [of ?len, rotated 2]) (simp_all add: batch_bytes_le)
    qed
    with eq show ?thesis by simp
  qed
qed

lemma joined_Cons: "set (joined (e # es)) = set (joins_before e) \<union> set (joins_during e) \<union> set (joined es)"
  by (simp add: joined_def Un_assoc)

lemma read_thd_loop_sim:
  assumes w: "sim K S A w"
    and refl: "\<And>t. K t t"
    and step: "\<And>e len r buf t0 t rm t'. e \<in> set es \<Longrightarrow> sz dvd len \<Longrightarrow> len \<le> 1024 \<Longrightarrow>
                 hw_call (reading e) len = (r, buf) \<Longrightarrow> K t0 t \<Longrightarrow>
                 deliver se sz r buf (to_size_t (c_div r (int sz))) t = (rm, t') \<Longrightarrow>
                 (if rm then S t0 t' else K t0 t')"
  shows "sim K S (A \<union> set (joined es)) (snd (read_thd_loop se sz es w))"
  using w step
proof (induction es arbitrary: w A)
  case Nil
  then show ?case by (simp add: joined_def)
next
  case (Cons e es)
  obtain b w' where lb: "loop_body se sz e w = (b, w')" by (cases "loop_body se sz e w")
  let ?B = "A \<union> set (joins_before e) \<union> set (joins_during e)"
  have "sim K S ?B (snd (loop_body se sz e w))"
    by (rule loop_body_sim [OF Cons.prems(1) refl]) (rule Cons.prems(2) [of e], simp_all)
  with lb have w': "sim K S ?B w'" by simp
  show ?case
  proof (cases b)
    case True
    with lb w' show ?thesis
      by (auto simp: joined_Cons intro: sim_mono)
  next
    case False
    have "sim K S (?B \<union> set (joined es)) (snd (read_thd_loop se sz es w'))"
      by (rule Cons.IH [OF w']) (rule Cons.prems(2), simp_all)
    with lb False show ?thesis
      by (simp add: joined_Cons Un_assoc)
  qed
qed

subsection \<open>Conversions\<close>

lemma to_size_t_int: "n < 2 ^ 64 \<Longrightarrow> to_size_t (int n) = n"
  by (simp add: to_size_t_def)

lemma c_div_int: "c_div (int n) (int sz) = int (n div sz)"
  by (cases "n = 0"; cases "sz = 0") (simp_all add: c_div_def zdiv_int)

lemma nb_samples_int: "n \<le> 1024 \<Longrightarrow> to_size_t (c_div (int n) (int sz)) = n div sz"
proof -
  assume "n \<le> 1024"
  have "n div sz \<le> n" by simp
  also have "n < 2 ^ 64" using \<open>n \<le> 1024\<close> by simp
  finally show ?thesis by (simp add: c_div_int to_size_t_int)
qed

lemma hw_call_cases:
  assumes "hw_call h len = (r, buf)"
  shows "length buf \<le> len \<and> (r < 0 \<and> buf = [] \<or> r = int (length buf))"
  using assms by (cases h) auto

subsection \<open>One entry in the broadcast\<close>

lemma deliver_failed:
  "r < 0 \<Longrightarrow> deliver se sz r buf nbs t =
     (False, t\<lparr>fd := fprintf (fd t)
        (if verbose t then ''ERROR reading device: '' @ se r @ ''\<newline>''
         else show_int r @ ''\<newline>'')\<rparr>)"
  by (simp add: deliver_def Let_def)

lemma deliver_tid:
  "deliver se sz r buf nbs t = (rm, t') \<Longrightarrow> tid t' = tid t \<and> verbose t' = verbose t"
  by (auto simp: deliver_def Let_def split: if_splits prod.splits)

lemma deliver_printed:
  assumes "0 \<le> r" and "deliver se sz r buf nbs t = (rm, t')"
  shows "printed (fd t') = printed (fd t) @ (if verbose t then [] else [show_int r @ ''\<newline>''])"
  using assms
  by (auto simp: deliver_def Let_def split: if_splits prod.splits dest!: write_all_printed)

lemma deliver_good:
  assumes len: "length buf \<le> 1024" and good: "0 \<notin> set (room (fd t))"
    and D: "deliver se sz (int (length buf)) buf (length buf div sz) t = (rm, t')"
  shows "0 \<notin> set (room (fd t'))"
    and "nb t < length buf div sz \<Longrightarrow>
           \<not> rm \<and> nb t' = nb t \<and> err t' = err t \<and> payload (fd t') = payload (fd t)"
    and "length buf div sz \<le> nb t \<Longrightarrow>
           nb t' = (if buf = [] then nb t
                    else nat ((int (nb t) - int (length buf div sz)) mod 2 ^ 32))
           \<and> payload (fd t') = payload (fd t) + length buf
           \<and> rm = (nb t' = 0) \<and> err t' = (if rm then Some 0 else err t)"
proof -
  let ?t1 = "if \<not> verbose t then t\<lparr>fd := fprintf (fd t) (show_int (int (length buf)) @ ''\<newline>'')\<rparr>
             else t"
  have t1: "0 \<notin> set (room (fd ?t1))" "payload (fd ?t1) = payload (fd t)" "nb ?t1 = nb t"
    "err ?t1 = err t"
    using good by simp_all
  obtain f' where f': "write_all buf (fd ?t1) = (int (length buf), f')" "0 \<notin> set (room f')"
    "payload f' = payload (fd ?t1) + length buf"
    using write_all_good [OF t1(1)] by blast
  have sz: "to_size_t (int (length buf)) = length buf"
    using len by (simp add: to_size_t_int)
  show "0 \<notin> set (room (fd t'))"
    using D good f' sz by (auto simp: deliver_def Let_def split: if_splits)
  show "\<not> rm \<and> nb t' = nb t \<and> err t' = err t \<and> payload (fd t') = payload (fd t)"
    if "nb t < length buf div sz"
    using that D by (auto simp: deliver_def Let_def split: if_splits)
  show "nb t' = (if buf = [] then nb t
                    else nat ((int (nb t) - int (length buf div sz)) mod 2 ^ 32))
           \<and> payload (fd t') = payload (fd t) + length buf
           \<and> rm = (nb t' = 0) \<and> err t' = (if rm then Some 0 else err t)"
    if "length buf div sz \<le> nb t"
  proof (cases "length buf = 0")
    case True
    with that D show ?thesis
      by (auto simp: deliver_def Let_def to_size_t_def split: if_splits)
  next
    case False
    with that D f' sz t1 show ?thesis
      by (auto simp: deliver_def Let_def split: if_splits)
  qed
qed

subsection \<open>Leaving the loop\<close>

lemma loop_body_break_ret:
  assumes "fst (loop_body se sz e w)" and "0 \<le> ret (snd (loop_body se sz e w))"
  shows "thdlist (snd (loop_body se sz e w)) = []"
  using assms by (auto simp: loop_body_def Let_def ENOMEM_def split: if_splits)

lemma read_thd_loop_break_ret:
  assumes "fst (read_thd_loop se sz es w)" and "0 \<le> ret (snd (read_thd_loop se sz es w))"
  shows "thdlist (snd (read_thd_loop se sz es w)) = []"
  using assms
proof (induction es arbitrary: w)
  case Nil
  then show ?case by simp
next
  case (Cons e es)
  obtain b w' where lb: "loop_body se sz e w = (b, w')" by (cases "loop_body se sz e w")
  show ?case
  proof (cases b)
    case True
    with lb Cons.prems loop_body_break_ret [of se sz e w] show ?thesis by simp
  next
    case False
    with lb Cons.prems Cons.IH [of w'] show ?thesis by simp
  qed
qed

lemma final_read_thd_from:
  "final (read_thd_from se sz d es devs w) =
     (if fst (read_thd_loop se sz es w)
      then fst (read_thd_exit d (snd (read_thd_loop se sz es w)) devs)
      else snd (read_thd_loop se sz es w))"
  by (simp add: read_thd_from_def split: prod.splits bool.splits)

lemma read_thd_exit_fields [simp]:
  "thdlist (fst (read_thd_exit d w devs)) = []"
  "signalled (fst (read_thd_exit d w devs)) = signalled w @ drain (ret w) (thdlist w)"
  "acts (fst (read_thd_exit d w devs)) =
     acts w @ [Lock Thdlist_lock, Unlock Thdlist_lock, Unlock Devlist_lock]"
  "ret (fst (read_thd_exit d w devs)) = ret w"
  "snd (read_thd_exit d w devs) = remove_entry d devs"
  by (simp_all add: read_thd_exit_def)

lemma read_thd_from_sim:
  assumes w: "sim K S A w"
    and refl: "\<And>t. K t t"
    and step: "\<And>e len r buf t0 t rm t'. e \<in> set es \<Longrightarrow> sz dvd len \<Longrightarrow> len \<le> 1024 \<Longrightarrow>
                 hw_call (reading e) len = (r, buf) \<Longrightarrow> K t0 t \<Longrightarrow>
                 deliver se sz r buf (to_size_t (c_div r (int sz))) t = (rm, t') \<Longrightarrow>
                 (if rm then S t0 t' else K t0 t')"
    and drain: "\<And>t0 t r. r < 0 \<Longrightarrow> K t0 t \<Longrightarrow> S t0 (t\<lparr>err := Some r\<rparr>)"
  shows "sim K S (A \<union> set (joined es)) (final (read_thd_from se sz d es devs w))"
proof -
  let ?w = "snd (read_thd_loop se sz es w)"
  have l: "sim K S (A \<union> set (joined es)) ?w"
    by (rule read_thd_loop_sim [OF w refl step])
  show ?thesis
  proof (cases "fst (read_thd_loop se sz es w)")
    case False
    with l show ?thesis by (simp add: final_read_thd_from)
  next
    case True
    show ?thesis
    proof (cases "ret ?w < 0")
      case neg: True
      have "\<forall>t\<in>set (drain (ret ?w) (thdlist ?w)). \<exists>t0\<in>A \<union> set (joined es). S t0 t"
      proof
        fix t assume "t \<in> set (drain (ret ?w) (thdlist ?w))"
        with neg obtain u where u: "u \<in> set (thdlist ?w)" "t = u\<lparr>err := Some (ret ?w)\<rparr>"
          by (auto simp: drain_def)
        with l obtain t0 where "t0 \<in> A \<union> set (joined es)" "K t0 u"
          unfolding sim_def by blast
        with drain [OF neg this(2)] u show "\<exists>t0\<in>A \<union> set (joined es). S t0 t" by blast
      qed
      with l True show ?thesis
        by (auto simp: final_read_thd_from sim_def)
    next
      case False
      with True read_thd_loop_break_ret [of se sz es w] have "thdlist ?w = []" by simp
      with l True show ?thesis
        by (auto simp: final_read_thd_from sim_def drain_def)
    qed
  qed
qed

subsection \<open>Raw reads of a thread\<close>

lemma loop_body_reads:
  assumes "\<forall>len\<in>set (reads (acts w)). P len" and "\<And>n. n \<le> 1024 div sz \<Longrightarrow> P (n * sz)"
  shows "\<forall>len\<in>set (reads (acts (snd (loop_body se sz e w)))). P len"
  using assms(1) assms(2) [OF batch_le] by (auto simp add: acts_loop_body)

lemma read_thd_loop_reads:
  assumes "\<forall>len\<in>set (reads (acts w)). P len" and "\<And>n. n \<le> 1024 div sz \<Longrightarrow> P (n * sz)"
  shows "\<forall>len\<in>set (reads (acts (snd (read_thd_loop se sz es w)))). P len"
  using assms(1)
proof (induction es arbitrary: w)
  case Nil
  then show ?case by simp
next
  case (Cons e es)
  obtain b w' where lb: "loop_body se sz e w = (b, w')" by (cases "loop_body se sz e w")
  from loop_body_reads [of w P sz se e, OF Cons.prems assms(2)] lb
  have r: "\<forall>len\<in>set (reads (acts w')). P len" by simp
  show ?case
  proof (cases b)
    case True
    with lb r show ?thesis by simp
  next
    case False
    from Cons.IH [OF r] lb False show ?thesis by simp
  qed
qed

lemma read_thd_reads:
  assumes "\<And>n. n \<le> 1024 div sample_size entry \<Longrightarrow> P (n * sample_size entry)"
  shows "\<forall>len\<in>set (reads (acts (final (read_thd se entry es devs)))). P len"
proof -
  let ?w0 = "\<lparr>thdlist = thdlist_head entry, ret = 0, signalled = [], acts = []\<rparr>"
  have "\<forall>len\<in>set (reads (acts (snd (read_thd_loop se (sample_size entry) es ?w0)))). P len"
    by (rule read_thd_loop_reads [where P = P and sz = "sample_size entry"])
       (simp_all add: assms)
  then show ?thesis
    by (simp add: read_thd_def final_read_thd_from)
qed

lemma deliver_empty:
  assumes "r \<le> 0" and "deliver se sz r [] (to_size_t (c_div r (int sz))) t = (rm, t')"
  shows "tid t' = tid t \<and> nb t' = nb t"
  using assms
  by (cases "r < 0")
     (auto simp: deliver_failed deliver_def Let_def to_size_t_def c_div_def split: if_splits)

subsection \<open>A failed raw read\<close>

lemma broadcast_failed:
  "r < 0 \<Longrightarrow> broadcast se sz r buf nbs thds =
     (map (\<lambda>t. t\<lparr>fd := fprintf (fd t)
              (if verbose t then ''ERROR reading device: '' @ se r @ ''\<newline>''
               else show_int r @ ''\<newline>'')\<rparr>) thds, [])"
  by (simp add: broadcast_def Let_def deliver_failed comp_def)

lemma loop_body_failed_read:
  assumes "0 \<le> ret w" and "malloc_ok e" and "reading e = Fails errno" and "0 < errno"
    and "insert_head (joins_before e) (thdlist w) \<noteq> []"
  shows "fst (loop_body se sz e w) = False"
    and "ret (snd (loop_body se sz e w)) = - int errno"
    and "signalled (snd (loop_body se sz e w)) = signalled w"
    and "thdlist (snd (loop_body se sz e w)) =
           map (\<lambda>t. t\<lparr>fd := fprintf (fd t)
                  (if verbose t then ''ERROR reading device: '' @ se (- int errno) @ ''\<newline>''
                   else show_int (- int errno) @ ''\<newline>'')\<rparr>)
             (insert_head (joins_during e) (insert_head (joins_before e) (thdlist w)))"
  using assms by (simp_all add: loop_body_def loop_tail_def Let_def broadcast_failed)

lemma loop_body_after_failure:
  assumes "ret w < 0"
  shows "fst (loop_body se sz e w) = True"
    and "ret (snd (loop_body se sz e w)) = ret w"
    and "signalled (snd (loop_body se sz e w)) = signalled w"
    and "thdlist (snd (loop_body se sz e w)) = insert_head (joins_before e) (thdlist w)"
  using assms by (simp_all add: loop_body_def Let_def)

lemma loop_body_empty:
  assumes "0 \<le> ret w" and "thdlist w = []" and "joins_before e = []"
  shows "fst (loop_body se sz e w) = True"
    and "thdlist (snd (loop_body se sz e w)) = []"
    and "signalled (snd (loop_body se sz e w)) = signalled w"
  using assms by (simp_all add: loop_body_def Let_def insert_head_def)

lemma read_thd_loop_Cons:
  "read_thd_loop se sz (e # es) w =
     (if fst (loop_body se sz e w) then (True, snd (loop_body se sz e w))
      else read_thd_loop se sz es (snd (loop_body se sz e w)))"
  by (simp split: prod.splits bool.splits)

subsection \<open>The device list\<close>

lemma set_remove_entry: "set (remove_entry d devs) \<subseteq> set devs"
  by (induction devs) auto

lemma find_remove_entry:
  "distinct (map dev devs) \<Longrightarrow> find (\<lambda>x. dev x = d) (remove_entry d devs) = None"
proof (induction devs)
  case Nil
  then show ?case by simp
next
  case (Cons e devs)
  show ?case
  proof (cases "dev e = d")
    case True
    then have r: "remove_entry d (e # devs) = devs" by simp
    from Cons.prems have "dev e \<notin> dev ` set devs" by simp
    with True have "\<forall>x\<in>set devs. dev x \<noteq> d" by blast
    with r show ?thesis by (simp add: find_None_iff)
  next
    case False
    with Cons show ?thesis by simp
  qed
qed

lemma distinct_remove_entry:
  "distinct (map dev devs) \<Longrightarrow> distinct (map dev (remove_entry d devs))"
proof (induction devs)
  case Nil
  then show ?case by simp
next
  case (Cons e devs)
  then show ?case
    using set_remove_entry [of d devs] by auto
qed

lemma map_dev_insert_thd [simp]: "map dev (insert_thd d thd devs) = map dev devs"
  by (induction devs) simp_all

lemma distinct_read_buffer_attach:
  assumes "distinct (map dev devs)"
    and "read_buffer_attach env devs pdata d n sz = (res, devs', calls)"
  shows "distinct (map dev devs')"
  using assms
  by (auto simp: read_buffer_attach_def Let_def find_None_iff
      split: option.splits if_splits)

lemma read_buffer_attach_fresh:
  assumes "find (\<lambda>x. dev x = d) devs = None"
    and "thd_alloc env = Some a" and "entry_alloc env" and "open_ret env = 0"
    and "create_ret env = 0"
  shows "read_buffer_attach env devs pdata d n sz =
           (Waiting \<lparr>tid = a, nb = n, err = None, fd = out pdata, verbose = pverbose pdata\<rparr>,
            \<lparr>dev = d, sample_size = sz,
              thdlist_head = [\<lparr>tid = a, nb = n, err = None, fd = out pdata,
                               verbose = pverbose pdata\<rparr>]\<rparr> # devs,
            [Open d])"
  using assms by (simp add: read_buffer_attach_def Let_def)

subsection \<open>Identities of entries\<close>

lemma distinct_mset_subseteq:
  assumes "mset xs \<subseteq># mset ys" and "distinct ys"
  shows "distinct xs"
proof -
  have "count (mset xs) a = (if a \<in> set xs then 1 else 0)" for a
  proof (cases "a \<in> set xs")
    case True
    then have "0 < count (mset xs) a" by (simp only: count_greater_zero_iff set_mset_mset)
    moreover have "count (mset xs) a \<le> count (mset ys) a"
      using assms(1) by (rule mset_subset_eq_count)
    moreover have "count (mset ys) a \<le> 1"
      using assms(2) by (simp add: distinct_count_atmost_1)
    ultimately have "count (mset xs) a = 1" by linarith
    with True show ?thesis by simp
  next
    case False
    then show ?thesis by (simp add: count_mset_0_iff)
  qed
  then show ?thesis by (simp add: distinct_count_atmost_1)
qed

lemma tid_deliver [simp]: "tid (snd (deliver se sz r buf nbs t)) = tid t"
  using deliver_tid [of se sz r buf nbs t] by (cases "deliver se sz r buf nbs t") simp

lemma broadcast_tids:
  "mset (map tid (fst (broadcast se sz r buf nbs thds)))
     + mset (map tid (snd (broadcast se sz r buf nbs thds))) = mset (map tid thds)"
  by (induction thds) (simp_all add: broadcast_def Let_def)

lemma mset_insert_head: "mset (map tid (insert_head new thds)) = mset (map tid new) + mset (map tid thds)"
  by (simp add: insert_head_eq)

lemma tids_loop_tail:
  "tids (loop_tail se sz e len w) = tids w + mset (map tid (joins_during e))"
proof -
  obtain r buf where hw: "hw_call (reading e) len = (r, buf)" by (cases "hw_call (reading e) len")
  let ?b = "broadcast se sz r buf (to_size_t (c_div r (int sz)))
              (insert_head (joins_during e) (thdlist w))"
  have "tids (loop_tail se sz e len w) =
          mset (map tid (fst ?b)) + mset (map tid (snd ?b)) + mset (map tid (signalled w))"
    using hw by (simp add: loop_tail_def Let_def tids_def split: prod.splits)
  then show ?thesis
    using broadcast_tids [of se sz r buf "to_size_t (c_div r (int sz))"
        "insert_head (joins_during e) (thdlist w)"]
      mset_insert_head [of "joins_during e" "thdlist w"]
    by (simp add: tids_def ac_simps)
qed

lemma tids_updates [simp]:
  "tids (w\<lparr>acts := a\<rparr>) = tids w"
  "tids (w\<lparr>ret := x\<rparr>) = tids w"
  "tids (w\<lparr>thdlist := l\<rparr>) = mset (map tid l) + mset (map tid (signalled w))"
  by (simp_all add: tids_def)

lemma tids_loop_body:
  "tids (snd (loop_body se sz e w)) =
     tids w + mset (map tid (joins_before e))
       + (if fst (loop_body se sz e w) then {#} else mset (map tid (joins_during e)))"
  using mset_insert_head [of "joins_before e" "thdlist w"]
  by (simp add: loop_body_def Let_def tids_loop_tail) (simp add: tids_def ac_simps insert_head_eq)

lemma tids_read_thd_loop:
  "tids w \<subseteq># tids (snd (read_thd_loop se sz es w))
   \<and> tids (snd (read_thd_loop se sz es w)) \<subseteq># tids w + mset (map tid (joined es))"
proof (induction es arbitrary: w)
  case Nil
  then show ?case by (simp add: joined_def)
next
  case (Cons e es)
  let ?w' = "snd (loop_body se sz e w)"
  let ?B = "mset (map tid (joins_before e))"
  let ?C = "mset (map tid (joins_during e))"
  let ?D = "mset (map tid (joined es))"
  have j: "mset (map tid (joined (e # es))) = ?B + ?C + ?D"
    by (simp add: joined_def)
  show ?case
  proof (cases "fst (loop_body se sz e w)")
    case True
    then have t: "tids ?w' = tids w + ?B"
      by (simp add: tids_loop_body)
    have "tids w \<subseteq># tids w + ?B" "tids w + ?B \<subseteq># tids w + (?B + ?C + ?D)"
      by (simp_all add: subseteq_mset_def)
    with True t j show ?thesis
      by (simp only: read_thd_loop_Cons if_True snd_conv)
  next
    case False
    then have t: "tids ?w' = tids w + ?B + ?C"
      by (simp add: tids_loop_body)
    let ?X = "tids (snd (read_thd_loop se sz es ?w'))"
    from Cons.IH [of ?w'] have 2: "tids ?w' \<subseteq># ?X" and 3: "?X \<subseteq># tids ?w' + ?D"
      by simp_all
    have 1: "tids w \<subseteq># tids ?w'"
      unfolding t by (simp add: subseteq_mset_def)
    have a: "tids w \<subseteq># ?X"
      by (rule subset_mset.order_trans [OF 1 2])
    have "tids ?w' + ?D = tids w + (?B + ?C + ?D)"
      unfolding t by (simp add: ac_simps)
    with 3 have b: "?X \<subseteq># tids w + (?B + ?C + ?D)" by (simp only:)
    from False a b j show ?thesis
      by (simp only: read_thd_loop_Cons if_False)
  qed
qed

lemma tids_exit [simp]: "tids (fst (read_thd_exit d w devs)) = tids w"
  by (cases "ret w < 0") (simp_all add: read_thd_exit_def tids_def drain_def comp_def)

lemma tids_final:
  "tids w \<subseteq># tids (final (read_thd_from se sz d es devs w))
   \<and> tids (final (read_thd_from se sz d es devs w)) \<subseteq># tids w + mset (map tid (joined es))"
  using tids_read_thd_loop [of w se sz es] by (simp add: final_read_thd_from)

lemma signalled_loop_body: "\<exists>new. signalled (snd (loop_body se sz e w)) = signalled w @ new"
  by (simp add: loop_body_def loop_tail_def Let_def split: prod.splits)

lemma signalled_read_thd_loop:
  "\<exists>new. signalled (snd (read_thd_loop se sz es w)) = signalled w @ new"
proof (induction es arbitrary: w)
  case Nil
  then show ?case by simp
next
  case (Cons e es)
  obtain n1 where n1: "signalled (snd (loop_body se sz e w)) = signalled w @ n1"
    using signalled_loop_body by blast
  obtain n2 where "signalled (snd (read_thd_loop se sz es (snd (loop_body se sz e w)))) =
      signalled (snd (loop_body se sz e w)) @ n2"
    using Cons.IH by blast
  with n1 show ?case
    by (simp add: read_thd_loop_Cons del: read_thd_loop.simps)
qed

lemma signalled_final:
  "\<exists>new. signalled (final (read_thd_from se sz d es devs w)) = signalled w @ new"
  using signalled_read_thd_loop [of se sz es w] by (auto simp: final_read_thd_from)

lemma terminated_read_thd_from:
  "terminated (read_thd_from se sz d es devs w) = fst (read_thd_loop se sz es w)"
  by (simp add: read_thd_from_def split: prod.splits bool.splits)

lemma terminated_thdlist:
  "terminated (read_thd_from se sz d es devs w) \<Longrightarrow>
     thdlist (final (read_thd_from se sz d es devs w)) = []"
  by (simp add: terminated_read_thd_from final_read_thd_from)

subsection \<open>What one broadcast does to one entry\<close>

lemma nat_diff_mod_le:
  assumes "q \<le> (n::nat)"
  shows "nat ((int n - int q) mod 2 ^ 32) \<le> n - q"
proof -
  have "0 \<le> int n - int q" using assms by simp
  then have "(int n - int q) mod 2 ^ 32 \<le> int n - int q"
    by (rule zmod_le_nonneg_dividend)
  then show ?thesis using assms by linarith
qed

lemma nat_diff_mod_eq:
  assumes "q \<le> (n::nat)" and "n < 2 ^ 32"
  shows "nat ((int n - int q) mod 2 ^ 32) = n - q"
proof -
  have "0 \<le> int n - int q" "int n - int q < 2 ^ 32"
    using assms by simp_all
  then have "(int n - int q) mod 2 ^ 32 = int n - int q" by simp
  then show ?thesis using assms by linarith
qed

lemma deliver_mono:
  assumes hw: "hw_call h len = (r, buf)" and len: "len \<le> 1024"
    and good: "0 \<notin> set (room (fd t))"
    and D: "deliver se sz r buf (to_size_t (c_div r (int sz))) t = (rm, t')"
  shows "0 \<notin> set (room (fd t')) \<and> nb t' \<le> nb t"
proof -
  from hw_call_cases [OF hw] len have buf: "length buf \<le> 1024"
    and r: "r < 0 \<and> buf = [] \<or> r = int (length buf)" by auto
  show ?thesis
  proof (cases "r < 0")
    case True
    with D good show ?thesis by (auto simp: deliver_failed)
  next
    case False
    with r have r': "r = int (length buf)" by simp
    let ?q = "length buf div sz"
    from D have D': "deliver se sz (int (length buf)) buf ?q t = (rm, t')"
      by (simp add: r' nb_samples_int [OF buf])
    note g = deliver_good [OF buf good D']
    show ?thesis
    proof (cases "nb t < ?q")
      case True
      with g show ?thesis by simp
    next
      case False
      then have q: "?q \<le> nb t" by simp
      from g(3) [OF q] nat_diff_mod_le [OF q] g(1) show ?thesis
        by (auto split: if_splits)
    qed
  qed
qed

lemma deliver_exact:
  assumes hw: "hw_call h len = (r, buf)" and len: "len \<le> 1024" and dvd: "sz dvd length buf"
    and good: "0 \<notin> set (room (fd t))" and nb: "nb t < 2 ^ 32"
    and D: "deliver se sz r buf (to_size_t (c_div r (int sz))) t = (rm, t')"
  shows "0 \<notin> set (room (fd t')) \<and> nb t' < 2 ^ 32
         \<and> payload (fd t') + nb t' * sz = payload (fd t) + nb t * sz
         \<and> (rm \<longrightarrow> nb t' = 0 \<and> err t' = Some 0) \<and> (\<not> rm \<longrightarrow> err t' = err t)"
proof -
  from hw_call_cases [OF hw] len have buf: "length buf \<le> 1024"
    and r: "r < 0 \<and> buf = [] \<or> r = int (length buf)" by auto
  show ?thesis
  proof (cases "r < 0")
    case True
    with D good nb show ?thesis by (auto simp: deliver_failed)
  next
    case False
    with r have r': "r = int (length buf)" by simp
    let ?q = "length buf div sz"
    from dvd have qsz: "?q * sz = length buf" by simp
    from D have D': "deliver se sz (int (length buf)) buf ?q t = (rm, t')"
      by (simp add: r' nb_samples_int [OF buf])
    note g = deliver_good [OF buf good D']
    show ?thesis
    proof (cases "nb t < ?q")
      case True
      with g nb show ?thesis by simp
    next
      case False
      then have q: "?q \<le> nb t" by simp
      have nb': "nb t' = nb t - ?q"
      proof (cases "buf = []")
        case True
        with g(3) [OF q] show ?thesis by simp
      next
        case False
        with g(3) [OF q] nat_diff_mod_eq [OF q nb] show ?thesis by simp
      qed
      have "(nb t - ?q) * sz + ?q * sz = nb t * sz"
        using q by (simp add: diff_mult_distrib)
      with g(3) [OF q] g(1) nb nb' qsz show ?thesis
        by (auto split: if_splits)
    qed
  qed
qed

lemma hw_call_dvd:
  assumes "hw_call h len = (r, buf)" and "sz dvd len"
    and "\<forall>data. h = Gives data \<longrightarrow> sz dvd length data"
  shows "sz dvd length buf"
  using assms by (cases h) (auto simp: min_def)

lemma read_thd_loop_append:
  "read_thd_loop se sz (es @ es') w =
     (if fst (read_thd_loop se sz es w) then read_thd_loop se sz es w
      else read_thd_loop se sz es' (snd (read_thd_loop se sz es w)))"
proof (induction es arbitrary: w)
  case Nil
  then show ?case by simp
next
  case (Cons e es)
  show ?case
    by (cases "fst (loop_body se sz e w)")
       (simp_all add: read_thd_loop_Cons Cons.IH prod_eq_iff del: read_thd_loop.simps)
qed

lemma read_thd_loop_one_more:
  assumes "thdlist (snd (read_thd_loop se sz es w)) = []" and "joins_before e = []"
  shows "fst (read_thd_loop se sz (es @ e # es') w)"
proof (cases "fst (read_thd_loop se sz es w)")
  case True
  then show ?thesis by (simp add: read_thd_loop_append)
next
  case False
  let ?w = "snd (read_thd_loop se sz es w)"
  have "fst (loop_body se sz e ?w)"
    using assms by (simp add: fst_loop_body insert_head_def)
  with False show ?thesis
    by (simp add: read_thd_loop_append read_thd_loop_Cons del: read_thd_loop.simps)
qed

subsection \<open>What reaches a sink\<close>






lemma broadcast_input:
  assumes "broadcast se sz r buf nbs thds = (kept, woken)" and "t \<in> set thds"
  obtains rm t' where "deliver se sz r buf nbs t = (rm, t')"
    and "if rm then t' \<in> set woken else t' \<in> set kept"
proof -
  obtain rm t' where D: "deliver se sz r buf nbs t = (rm, t')"
    by (cases "deliver se sz r buf nbs t")
  with assms have "if rm then t' \<in> set woken else t' \<in> set kept"
    by (force simp: broadcast_def Let_def image_iff)
  with D that show ?thesis by blast
qed


subsection \<open>The count of one entry in one pass\<close>

lemma deliver_step:
  assumes hw: "hw_call h len = (r, buf)" and len: "len \<le> 1024"
    and good: "0 \<notin> set (room (fd t))"
    and D: "deliver se sz r buf (to_size_t (c_div r (int sz))) t = (rm, t')"
  shows "tid t' = tid t"
    and "r < 0 \<or> nb t < length buf div sz \<Longrightarrow> nb t' = nb t \<and> \<not> rm"
    and "0 \<le> r \<Longrightarrow> length buf div sz \<le> nb t \<Longrightarrow>
           nb t' \<le> nb t - length buf div sz
           \<and> (nb t < 2 ^ 32 \<longrightarrow> nb t' = nb t - length buf div sz)
           \<and> rm = (nb t' = 0)"
proof -
  from hw_call_cases [OF hw] len have buf: "length buf \<le> 1024"
    and r: "r < 0 \<and> buf = [] \<or> r = int (length buf)" by auto
  show "tid t' = tid t" using deliver_tid [OF D] by simp
  let ?q = "length buf div sz"
  have D': "deliver se sz (int (length buf)) buf ?q t = (rm, t')" if "0 \<le> r"
    using that r D by (simp add: nb_samples_int [OF buf])
  show "nb t' = nb t \<and> \<not> rm" if "r < 0 \<or> nb t < ?q"
  proof (cases "r < 0")
    case True
    with D show ?thesis by (auto simp: deliver_failed)
  next
    case False
    with that have "nb t < ?q" by simp
    with deliver_good(2) [OF buf good D'] False show ?thesis by simp
  qed
  show "nb t' \<le> nb t - ?q \<and> (nb t < 2 ^ 32 \<longrightarrow> nb t' = nb t - ?q) \<and> rm = (nb t' = 0)"
    if "0 \<le> r" and q: "?q \<le> nb t"
  proof (cases "buf = []")
    case True
    with deliver_good(3) [OF buf good D' [OF that(1)] q] show ?thesis by simp
  next
    case False
    with deliver_good(3) [OF buf good D' [OF that(1)] q]
      nat_diff_mod_le [OF q] nat_diff_mod_eq [OF q]
    show ?thesis by auto
  qed
qed

subsection \<open>One pass that reads\<close>

lemma loop_body_pass:
  assumes "\<not> fst (loop_body se sz e w)"
  obtains r buf kept woken where
    "hw_call (reading e)
       (batch (1024 div sz) (insert_head (joins_before e) (thdlist w)) * sz) = (r, buf)"
    and "broadcast se sz r buf (to_size_t (c_div r (int sz)))
       (insert_head (joins_during e) (insert_head (joins_before e) (thdlist w))) = (kept, woken)"
    and "thdlist (snd (loop_body se sz e w)) = kept"
    and "signalled (snd (loop_body se sz e w)) = signalled w @ woken"
    and "ret (snd (loop_body se sz e w)) = r"
proof -
  let ?l = "insert_head (joins_before e) (thdlist w)"
  let ?len = "batch (1024 div sz) ?l * sz"
  obtain r buf where hw: "hw_call (reading e) ?len = (r, buf)"
    by (cases "hw_call (reading e) ?len")
  obtain kept woken
    where bc: "broadcast se sz r buf (to_size_t (c_div r (int sz)))
                 (insert_head (joins_during e) ?l) = (kept, woken)"
    by (cases "broadcast se sz r buf (to_size_t (c_div r (int sz)))
                 (insert_head (joins_during e) ?l)")
  from assms have "\<not> ret w < 0" "?l \<noteq> []" "malloc_ok e"
    by (simp_all add: fst_loop_body)
  with hw bc have "thdlist (snd (loop_body se sz e w)) = kept"
    "signalled (snd (loop_body se sz e w)) = signalled w @ woken"
    "ret (snd (loop_body se sz e w)) = r"
    by (simp_all add: loop_body_def loop_tail_def Let_def)
  with hw bc show thesis by (rule that)
qed

lemma loop_body_break:
  assumes "fst (loop_body se sz e w)"
  shows "thdlist (snd (loop_body se sz e w)) = insert_head (joins_before e) (thdlist w)"
    and "signalled (snd (loop_body se sz e w)) = signalled w"
  using assms by (auto simp: loop_body_def Let_def split: if_splits)

subsection \<open>The passes an entry can stay\<close>

lemma owed_simps [simp]:
  "owed [] = 0"
  "owed (t # ts) = nb t + 1 + owed ts"
  "owed (xs @ ys) = owed xs + owed ys"
  by (simp_all add: owed_def)

lemma owed_rev [simp]: "owed (rev xs) = owed xs"
  by (induction xs) simp_all

lemma owed_insert_head [simp]: "owed (insert_head new thds) = owed new + owed thds"
  by (simp add: insert_head_eq)

lemma owed_joined_Cons:
  "owed (joined (e # es)) = owed (joins_before e) + owed (joins_during e) + owed (joined es)"
  by (simp add: joined_def)

lemma owed_kept:
  "owed (fst (broadcast se sz r buf nbs thds)) =
     sum_list (map (\<lambda>t. if fst (deliver se sz r buf nbs t) then 0
                        else nb (snd (deliver se sz r buf nbs t)) + 1) thds)"
  by (induction thds) (simp_all add: broadcast_def Let_def owed_def)

lemma sum_list_map_le:
  assumes "\<forall>x\<in>set xs. g x \<le> (f x :: nat)"
  shows "sum_list (map g xs) \<le> sum_list (map f xs)"
  using assms by (induction xs) (simp_all add: add_mono)

lemma sum_list_map_less:
  assumes "\<forall>x\<in>set xs. g x \<le> (f x :: nat)" and "\<exists>x\<in>set xs. g x < f x"
  shows "sum_list (map g xs) < sum_list (map f xs)"
  using assms
proof (induction xs)
  case Nil
  then show ?case by simp
next
  case (Cons x xs)
  from Cons.prems(1) have le: "g x \<le> f x" and rest: "\<forall>y\<in>set xs. g y \<le> f y" by simp_all
  show ?case
  proof (cases "g x < f x")
    case True
    with sum_list_map_le [OF rest] show ?thesis by simp
  next
    case False
    with Cons.prems(2) have "\<exists>y\<in>set xs. g y < f y" by auto
    with Cons.IH [OF rest] le show ?thesis by simp
  qed
qed

lemma hw_call_ready:
  assumes rdy: "device_ready sz e" and sz: "0 < sz"
    and hw: "hw_call (reading e) (b * sz) = (r, buf)"
  shows "0 \<le> r" and "sz dvd length buf" and "length buf div sz \<le> b"
    and "0 < b \<Longrightarrow> 0 < length buf div sz"
proof -
  from rdy obtain d where d: "reading e = Gives d" "sz dvd length d" "sz \<le> length d"
    by (auto simp: device_ready_def split: hw_result.splits)
  with hw have buf: "buf = take (b * sz) d" and r: "r = int (length buf)" by auto
  from r show "0 \<le> r" by simp
  from buf have len: "length buf = min (length d) (b * sz)" by simp
  with d(2) show "sz dvd length buf" by (simp add: min_def)
  from len have "length buf \<le> b * sz" by simp
  then have "length buf div sz \<le> (b * sz) div sz" by (rule div_le_mono)
  with sz show "length buf div sz \<le> b" by simp
  show "0 < length buf div sz" if "0 < b"
  proof -
    from that sz have "sz \<le> b * sz" by simp
    with d(3) len have "sz \<le> length buf" by simp
    with sz show ?thesis by (simp add: div_greater_zero_iff)
  qed
qed

lemma device_ready_whole: "device_ready sz e \<Longrightarrow> whole_samples sz e"
  by (auto simp: device_ready_def whole_samples_def split: hw_result.splits)

lemma batch_le_nb: "t \<in> set thds \<Longrightarrow> batch m thds \<le> nb t"
  by (simp add: batch_Min)

lemma batch_zero:
  assumes "batch m thds = 0" and "0 < m"
  shows "\<exists>t\<in>set thds. nb t = 0"
proof -
  have "Min (insert m (nb ` set thds)) \<in> insert m (nb ` set thds)"
    by (rule Min_in) simp_all
  with assms show ?thesis by (auto simp: batch_Min)
qed

lemma loop_body_owed:
  assumes P: "\<forall>t\<in>set (thdlist w) \<union> set (joins_before e) \<union> set (joins_during e). proper t"
  shows "owed (thdlist (snd (loop_body se sz e w)))
           \<le> owed (thdlist w) + owed (joins_before e) + owed (joins_during e)"
    and "\<forall>t\<in>set (thdlist (snd (loop_body se sz e w))). proper t"
proof -
  let ?l = "insert_head (joins_before e) (thdlist w)"
  let ?l2 = "insert_head (joins_during e) ?l"
  have "owed (thdlist (snd (loop_body se sz e w)))
           \<le> owed (thdlist w) + owed (joins_before e) + owed (joins_during e)
        \<and> (\<forall>t\<in>set (thdlist (snd (loop_body se sz e w))). proper t)"
  proof (cases "fst (loop_body se sz e w)")
    case True
    with P show ?thesis by (auto simp: loop_body_break)
  next
    case False
    then obtain r buf kept woken where
      hw: "hw_call (reading e) (batch (1024 div sz) ?l * sz) = (r, buf)"
      and bc: "broadcast se sz r buf (to_size_t (c_div r (int sz))) ?l2 = (kept, woken)"
      and k: "thdlist (snd (loop_body se sz e w)) = kept"
      by (rule loop_body_pass)
    let ?D = "deliver se sz r buf (to_size_t (c_div r (int sz)))"
    have st: "0 \<notin> set (room (fd (snd (?D t)))) \<and> nb (snd (?D t)) \<le> nb t" if "t \<in> set ?l2" for t
    proof -
      from that P have g: "0 \<notin> set (room (fd t))" by (auto simp: proper_def)
      have D: "?D t = (fst (?D t), snd (?D t))" by simp
      from deliver_mono [OF hw batch_bytes_le g D] show ?thesis .
    qed
    have "owed kept = sum_list (map (\<lambda>t. if fst (?D t) then 0 else nb (snd (?D t)) + 1) ?l2)"
      using owed_kept [of se sz r buf "to_size_t (c_div r (int sz))" ?l2] bc by simp
    also have "\<dots> \<le> sum_list (map (\<lambda>t. nb t + 1) ?l2)"
      by (rule sum_list_map_le) (use st in auto)
    also have "\<dots> = owed ?l2" by (simp add: owed_def)
    finally have "owed kept \<le> owed (thdlist w) + owed (joins_before e) + owed (joins_during e)"
      by simp
    moreover have "proper t'" if "t' \<in> set kept" for t'
    proof -
      from bc that obtain t where t: "t \<in> set ?l2" "?D t = (False, t')"
        by (rule broadcast_kept)
      from t(1) P have "nb t < 2 ^ 32" by (auto simp: proper_def)
      with st [OF t(1)] t(2) show ?thesis by (simp add: proper_def)
    qed
    ultimately show ?thesis using k by simp
  qed
  then show "owed (thdlist (snd (loop_body se sz e w)))
           \<le> owed (thdlist w) + owed (joins_before e) + owed (joins_during e)"
    and "\<forall>t\<in>set (thdlist (snd (loop_body se sz e w))). proper t"
    by simp_all
qed

lemma read_thd_loop_owed:
  assumes "\<forall>t\<in>set (thdlist w) \<union> set (joined es). proper t"
  shows "owed (thdlist (snd (read_thd_loop se sz es w))) \<le> owed (thdlist w) + owed (joined es)
         \<and> (\<forall>t\<in>set (thdlist (snd (read_thd_loop se sz es w))). proper t)"
  using assms
proof (induction es arbitrary: w)
  case Nil
  then show ?case by (simp add: joined_def)
next
  case (Cons e es)
  let ?w' = "snd (loop_body se sz e w)"
  from Cons.prems
  have P: "\<forall>t\<in>set (thdlist w) \<union> set (joins_before e) \<union> set (joins_during e). proper t"
    and Q: "\<forall>t\<in>set (joined es). proper t"
    by (auto simp: joined_Cons)
  note lb = loop_body_owed [OF P, of se sz]
  show ?case
  proof (cases "fst (loop_body se sz e w)")
    case True
    with lb show ?thesis
      by (simp add: read_thd_loop_Cons owed_joined_Cons del: read_thd_loop.simps)
  next
    case False
    from lb(2) Q have "\<forall>t\<in>set (thdlist ?w') \<union> set (joined es). proper t" by auto
    from Cons.IH [OF this] lb(1) False show ?thesis
      by (simp add: read_thd_loop_Cons owed_joined_Cons del: read_thd_loop.simps)
  qed
qed

lemma loop_body_progress:
  assumes sz: "0 < sz" "sz \<le> 1024" and rdy: "device_ready sz e"
    and quiet: "joins_before e = []" "joins_during e = []"
    and P: "\<forall>t\<in>set (thdlist w). proper t"
    and run: "\<not> fst (loop_body se sz e w)"
  shows "owed (thdlist (snd (loop_body se sz e w))) < owed (thdlist w)"
proof -
  let ?l = "thdlist w"
  let ?b = "batch (1024 div sz) ?l"
  have ih [simp]: "insert_head [] ?l = ?l" by (simp add: insert_head_def)
  from run obtain r buf kept woken where
    hw: "hw_call (reading e) (?b * sz) = (r, buf)"
    and bc: "broadcast se sz r buf (to_size_t (c_div r (int sz))) ?l = (kept, woken)"
    and k: "thdlist (snd (loop_body se sz e w)) = kept"
    by (rule loop_body_pass) (simp add: quiet)
  from run have ne: "?l \<noteq> []" by (simp add: fst_loop_body quiet)
  let ?q = "length buf div sz"
  note h = hw_call_ready [OF rdy sz(1) hw]
  let ?D = "deliver se sz r buf (to_size_t (c_div r (int sz)))"
  let ?g = "\<lambda>t. if fst (?D t) then 0 else nb (snd (?D t)) + 1"
  have st: "nb (snd (?D t)) = nb t - ?q \<and> fst (?D t) = (nb (snd (?D t)) = 0)"
    if "t \<in> set ?l" for t
  proof -
    from that P have g: "0 \<notin> set (room (fd t))" and n: "nb t < 2 ^ 32"
      by (auto simp: proper_def)
    from that have "?b \<le> nb t" by (rule batch_le_nb)
    with h(3) have q: "?q \<le> nb t" by simp
    have D: "?D t = (fst (?D t), snd (?D t))" by simp
    from deliver_step(3) [OF hw batch_bytes_le g D h(1) q] n show ?thesis by simp
  qed
  have le: "\<forall>t\<in>set ?l. ?g t \<le> nb t + 1"
    using st by auto
  have "\<exists>t\<in>set ?l. ?g t < nb t + 1"
  proof (cases "?b = 0")
    case True
    from sz have "0 < 1024 div sz" by (simp add: div_greater_zero_iff)
    with True obtain t where t: "t \<in> set ?l" "nb t = 0"
      using batch_zero by blast
    with st [OF t(1)] show ?thesis by auto
  next
    case False
    then have q: "0 < ?q" using h(4) by simp
    from ne obtain t where t: "t \<in> set ?l" by (cases ?l) auto
    from t have "?b \<le> nb t" by (rule batch_le_nb)
    with h(3) have "?q \<le> nb t" by simp
    with q st [OF t] have "?g t < nb t + 1" by auto
    with t show ?thesis by blast
  qed
  with le have "sum_list (map ?g ?l) < sum_list (map (\<lambda>t. nb t + 1) ?l)"
    by (rule sum_list_map_less)
  moreover have "owed kept = sum_list (map ?g ?l)"
    using owed_kept [of se sz r buf "to_size_t (c_div r (int sz))" ?l] bc by simp
  ultimately show ?thesis using k by (simp add: owed_def)
qed

lemma joined_Nil_Cons:
  "joined (e # es) = [] \<longleftrightarrow> joins_before e = [] \<and> joins_during e = [] \<and> joined es = []"
  by (simp add: joined_def)

lemma joined_append: "joined (es @ es') = joined es @ joined es'"
  by (simp add: joined_def)

lemma read_thd_loop_live:
  assumes sz: "0 < sz" "sz \<le> 1024"
    and "list_all (device_ready sz) idle" and "joined idle = []"
    and "\<forall>t\<in>set (thdlist w). proper t" and "owed (thdlist w) < length idle"
  shows "fst (read_thd_loop se sz idle w)"
  using assms(3-)
proof (induction idle arbitrary: w)
  case Nil
  then show ?case by simp
next
  case (Cons e es)
  from Cons.prems(2) have quiet: "joins_before e = []" "joins_during e = []"
    and qs: "joined es = []"
    by (simp_all add: joined_Nil_Cons)
  from Cons.prems(1) have rdy: "device_ready sz e" and rs: "list_all (device_ready sz) es"
    by simp_all
  show ?case
  proof (cases "fst (loop_body se sz e w)")
    case True
    then show ?thesis by (simp add: read_thd_loop_Cons del: read_thd_loop.simps)
  next
    case False
    let ?w' = "snd (loop_body se sz e w)"
    from loop_body_progress [OF sz rdy quiet Cons.prems(3) False] Cons.prems(4)
    have "owed (thdlist ?w') < length es" by simp
    moreover have "\<forall>t\<in>set (thdlist ?w'). proper t"
      by (rule loop_body_owed(2)) (use Cons.prems(3) quiet in simp)
    ultimately have "fst (read_thd_loop se sz es ?w')"
      by (rule Cons.IH [OF rs qs, rotated 1])
    with False show ?thesis by (simp add: read_thd_loop_Cons del: read_thd_loop.simps)
  qed
qed

subsection \<open>A device that never fails\<close>

lemma loop_body_ret_nonneg:
  assumes "device_ready sz e" and "0 < sz" and "0 \<le> ret w"
  shows "0 \<le> ret (snd (loop_body se sz e w))"
proof (cases "fst (loop_body se sz e w)")
  case True
  with assms show ?thesis
    by (auto simp: loop_body_def Let_def device_ready_def split: if_splits)
next
  case False
  then obtain r buf where
    "hw_call (reading e)
       (batch (1024 div sz) (insert_head (joins_before e) (thdlist w)) * sz) = (r, buf)"
    and "ret (snd (loop_body se sz e w)) = r"
    by (rule loop_body_pass)
  with hw_call_ready(1) [OF assms(1,2)] show ?thesis by simp
qed

lemma read_thd_loop_ret_nonneg:
  assumes "list_all (device_ready sz) es" and "0 < sz" and "0 \<le> ret w"
  shows "0 \<le> ret (snd (read_thd_loop se sz es w))"
  using assms(1,3)
proof (induction es arbitrary: w)
  case Nil
  then show ?case by simp
next
  case (Cons e es)
  from Cons.prems have r: "0 \<le> ret (snd (loop_body se sz e w))"
    by (simp add: loop_body_ret_nonneg [OF _ assms(2)])
  from Cons.prems(1) have "list_all (device_ready sz) es" by simp
  from Cons.IH [OF this r] r show ?case
    by (simp add: read_thd_loop_Cons del: read_thd_loop.simps)
qed

lemma tids_read_thd_loop_running:
  assumes "\<not> fst (read_thd_loop se sz es w)"
  shows "tids (snd (read_thd_loop se sz es w)) = tids w + mset (map tid (joined es))"
  using assms
proof (induction es arbitrary: w)
  case Nil
  then show ?case by (simp add: joined_def)
next
  case (Cons e es)
  let ?w' = "snd (loop_body se sz e w)"
  from Cons.prems have nb: "\<not> fst (loop_body se sz e w)"
    and run: "\<not> fst (read_thd_loop se sz es ?w')"
    by (simp_all add: read_thd_loop_Cons del: read_thd_loop.simps split: if_splits)
  have j: "mset (map tid (joined (e # es))) =
      mset (map tid (joins_before e)) + mset (map tid (joins_during e))
        + mset (map tid (joined es))"
    by (simp add: joined_def)
  from tids_loop_body [of se sz e w] nb
  have "tids ?w' = tids w + mset (map tid (joins_before e)) + mset (map tid (joins_during e))"
    by simp
  with Cons.IH [OF run] nb show ?case
    by (simp only: read_thd_loop_Cons j if_False snd_conv add.assoc)
qed

subsection \<open>Every request is served\<close>

lemma read_thd_serves_all:
  fixes l0 :: "ThdEntry list"
  defines "w0 \<equiv> \<lparr>thdlist = l0, ret = 0, signalled = [], acts = []\<rparr>"
  assumes sz: "0 < sz" "sz \<le> 1024"
    and rdy: "list_all (device_ready sz) (es @ idle)"
    and quiet: "joined idle = []"
    and P: "\<forall>t\<in>set (l0 @ joined es). proper t"
    and dist: "distinct (map tid (l0 @ joined es))"
    and run: "\<not> fst (read_thd_loop se sz es w0)"
    and bound: "owed (l0 @ joined es) < length idle"
  shows "fst (read_thd_loop se sz (es @ idle) w0)"
    and "\<forall>t0\<in>set (l0 @ joined es).
           \<exists>t\<in>set (signalled (final (read_thd_from se sz d (es @ idle) devs w0))).
             tid t = tid t0 \<and> err t = Some 0
             \<and> payload (fd t) = payload (fd t0) + nb t0 * sz"
proof -
  let ?w1 = "snd (read_thd_loop se sz es w0)"
  let ?W = "snd (read_thd_loop se sz (es @ idle) w0)"
  from rdy have rdy_es: "list_all (device_ready sz) es"
    and rdy_idle: "list_all (device_ready sz) idle" by simp_all
  have W: "read_thd_loop se sz (es @ idle) w0 = read_thd_loop se sz idle ?w1"
    using run by (simp add: read_thd_loop_append)
  have "\<forall>t\<in>set (thdlist w0) \<union> set (joined es). proper t"
    using P by (simp add: w0_def)
  from read_thd_loop_owed [OF this, of se sz]
  have o: "owed (thdlist ?w1) \<le> owed (l0 @ joined es)"
    and P1: "\<forall>t\<in>set (thdlist ?w1). proper t"
    by (simp_all add: w0_def)
  from o bound have "owed (thdlist ?w1) < length idle" by simp
  with sz rdy_idle quiet P1 have "fst (read_thd_loop se sz idle ?w1)"
    by (rule read_thd_loop_live)
  with W show left: "fst (read_thd_loop se sz (es @ idle) w0)" by simp
  have "0 \<le> ret ?W"
    by (rule read_thd_loop_ret_nonneg [OF rdy sz(1)]) (simp add: w0_def)
  with left have empty: "thdlist ?W = []"
    by (rule read_thd_loop_break_ret)
  have fin: "signalled (final (read_thd_from se sz d (es @ idle) devs w0)) = signalled ?W"
    using left empty by (simp add: final_read_thd_from drain_def)
  let ?K = "\<lambda>t0 t. tid t = tid t0 \<and>
              (proper t0 \<longrightarrow> proper t \<and> payload (fd t) + nb t * sz = payload (fd t0) + nb t0 * sz)"
  let ?S = "\<lambda>t0 t. tid t = tid t0 \<and>
              (proper t0 \<longrightarrow> err t = Some 0 \<and> payload (fd t) = payload (fd t0) + nb t0 * sz)"
  have sim: "sim ?K ?S (set (thdlist w0) \<union> set (joined (es @ idle))) ?W"
  proof (rule read_thd_loop_sim)
    show "sim ?K ?S (set (thdlist w0)) w0"
      by (auto simp: sim_def w0_def)
  next
    fix e len r buf t0 t rm t'
    assume e: "e \<in> set (es @ idle)" and dvd: "sz dvd len" and len: "len \<le> 1024"
      and hw: "hw_call (reading e) len = (r, buf)"
      and K: "?K t0 t"
      and D: "deliver se sz r buf (to_size_t (c_div r (int sz))) t = (rm, t')"
    have tid: "tid t' = tid t0"
      using deliver_tid [OF D] K by simp
    from rdy e have "device_ready sz e" by (simp only: list_all_iff)
    then have "\<forall>data. reading e = Gives data \<longrightarrow> sz dvd length data"
      by (auto simp: device_ready_def)
    with hw dvd have bd: "sz dvd length buf" by (rule hw_call_dvd)
    show "if rm then ?S t0 t' else ?K t0 t'"
    proof (cases "proper t0")
      case False
      with tid show ?thesis by auto
    next
      case True
      with K have G: "proper t"
        and eq: "payload (fd t) + nb t * sz = payload (fd t0) + nb t0 * sz"
        by simp_all
      from G have good: "0 \<notin> set (room (fd t))" and nb: "nb t < 2 ^ 32"
        by (simp_all add: proper_def)
      from deliver_exact [OF hw len bd good nb D] eq tid show ?thesis
        by (cases rm) (auto simp: proper_def)
    qed
  qed simp
  have t1: "tids ?w1 = mset (map tid (l0 @ joined es))"
    using tids_read_thd_loop_running [OF run] by (simp add: tids_def w0_def)
  have s1: "tids ?w1 \<subseteq># tids (snd (read_thd_loop se sz idle ?w1))"
    using tids_read_thd_loop [of ?w1 se sz idle] by (rule conjunct1)
  have W2: "snd (read_thd_loop se sz idle ?w1) = ?W"
    using W by simp
  have tW: "tids ?W = mset (map tid (signalled ?W))"
    using empty by (simp add: tids_def)
  from s1 have sub: "mset (map tid (l0 @ joined es)) \<subseteq># mset (map tid (signalled ?W))"
    unfolding W2 tW t1 .
  show "\<forall>t0\<in>set (l0 @ joined es).
           \<exists>t\<in>set (signalled (final (read_thd_from se sz d (es @ idle) devs w0))).
             tid t = tid t0 \<and> err t = Some 0
             \<and> payload (fd t) = payload (fd t0) + nb t0 * sz"
  proof
    fix t0 assume t0: "t0 \<in> set (l0 @ joined es)"
    then have "tid t0 \<in> set (map tid (l0 @ joined es))"
      by (simp only: set_map) (rule imageI)
    with set_mset_mono [OF sub] have "tid t0 \<in> set (map tid (signalled ?W))"
      by (auto simp only: set_mset_mset)
    then obtain t where t: "t \<in> set (signalled ?W)" "tid t = tid t0" by auto
    from sim t(1) obtain u where u: "u \<in> set (thdlist w0) \<union> set (joined (es @ idle))"
      and S: "?S u t"
      unfolding sim_def by blast
    from u quiet have u': "u \<in> set (l0 @ joined es)"
      by (simp add: joined_append w0_def)
    from dist have "inj_on tid (set (l0 @ joined es))"
      by (simp only: distinct_map)
    with u' t0 S t(2) have "u = t0" by (auto dest: inj_onD)
    with S P t0 have "err t = Some 0 \<and> payload (fd t) = payload (fd t0) + nb t0 * sz"
      by auto
    with t fin show "\<exists>t\<in>set (signalled (final (read_thd_from se sz d (es @ idle) devs w0))).
             tid t = tid t0 \<and> err t = Some 0
             \<and> payload (fd t) = payload (fd t0) + nb t0 * sz"
      by auto
  qed
qed

subsection \<open>The size of a raw read\<close>

text \<open>
  C1. In a pass of the loop that starts without an error (\<open>ret\<close> not negative) and finds
  the list of the session non-empty, the thread issues one raw read, provided malloc gives
  it a buffer, and the length of that read is \<open>min (1024 div sample_size) m\<close> samples of
  \<open>sample_size\<close> bytes, \<open>m\<close> being the least \<open>nb\<close> of the entries in the list. The cap
  \<open>1024 div sample_size\<close> does not depend on the entries.
\<close>

theorem read_thd_batch_is_min:
  assumes "0 < sz" and "0 \<le> ret w"
    and "thds = insert_head (joins_before e) (thdlist w)" and "thds \<noteq> []"
  shows "reads (acts (snd (loop_body strerror_r sz e w))) =
           reads (acts w) @
             (if malloc_ok e then [min (1024 div sz) (Min (nb ` set thds)) * sz] else [])"
proof -
  from assms(4) have b: "batch (1024 div sz) thds = min (1024 div sz) (Min (nb ` set thds))"
    by (simp add: batch_Min)
  show ?thesis
    using assms(2,4) by (simp add: acts_loop_body assms(3) [symmetric] b)
qed

theorem read_thd_batch_is_min_witness:
  "reads (acts (snd (loop_body strerror_none 4
      \<lparr>joins_before = [req_B], malloc_ok = True, joins_during = [], reading = Gives []\<rparr>
      \<lparr>thdlist = [req_A], ret = 0, signalled = [], acts = []\<rparr>))) = [8]"
  using read_thd_batch_is_min [of 4 "\<lparr>thdlist = [req_A], ret = 0, signalled = [], acts = []\<rparr>"
      "[req_B, req_A]"
      "\<lparr>joins_before = [req_B], malloc_ok = True, joins_during = [], reading = Gives []\<rparr>"
      strerror_none]
  by (simp add: insert_head_def req_A_def req_B_def)

subsection \<open>Locks around the raw read\<close>

text \<open>
  C9. Whatever the script, the record of what \<^verbatim>\<open>read_thd\<close> did to the two mutexes and
  to the device is disciplined: at every raw read the thread holds neither
  \<^verbatim>\<open>devlist_lock\<close> nor \<^verbatim>\<open>thdlist_lock\<close> (it locked and unlocked both before), it never
  locks a mutex it holds or unlocks one it does not hold, and it holds none between two
  passes and after it has terminated. What follows a raw read in the record is the lock
  of \<^verbatim>\<open>thdlist_lock\<close>.
\<close>

theorem read_thd_reads_without_locks:
  "disciplined [] (acts (final (read_thd se entry es devs)))
   \<and> held_after [] (acts (final (read_thd se entry es devs))) = []
   \<and> relocked (acts (final (read_thd se entry es devs)))"
proof -
  let ?w0 = "\<lparr>thdlist = thdlist_head entry, ret = 0, signalled = [], acts = []\<rparr>"
  have "disciplined [] (acts ?w0)" "held_after [] (acts ?w0) = []" by simp_all
  from read_thd_loop_disciplined [OF this, of se "sample_size entry" es]
  have d: "disciplined [] (acts (final (read_thd se entry es devs)))
           \<and> held_after [] (acts (final (read_thd se entry es devs))) = []"
    by (simp add: read_thd_def final_read_thd_from)
  have "relocked (acts ?w0)" by simp
  from read_thd_loop_relocked [OF this, of se "sample_size entry" es]
  have "relocked (acts (final (read_thd se entry es devs)))"
    by (simp add: read_thd_def final_read_thd_from relocked_append)
  with d show ?thesis by simp
qed

theorem read_thd_reads_without_locks_witness:
  "acts (final (read_thd strerror_none session_A (take 1 script_AB) [session_A])) =
     [Lock Devlist_lock, Lock Thdlist_lock, Unlock Thdlist_lock, Unlock Devlist_lock,
      Read_raw 12, Lock Thdlist_lock, Unlock Thdlist_lock]
   \<and> disciplined [] (acts (final (read_thd strerror_none session_A (take 1 script_AB) [session_A])))"
proof
  show "acts (final (read_thd strerror_none session_A (take 1 script_AB) [session_A])) =
     [Lock Devlist_lock, Lock Thdlist_lock, Unlock Thdlist_lock, Unlock Devlist_lock,
      Read_raw 12, Lock Thdlist_lock, Unlock Thdlist_lock]"
    by code_simp
  show "disciplined [] (acts (final (read_thd strerror_none session_A (take 1 script_AB) [session_A])))"
    using read_thd_reads_without_locks [of strerror_none session_A "take 1 script_AB" "[session_A]"]
    by (rule conjunct1)
qed

subsection \<open>The bound on a raw read\<close>

text \<open>
  C10. No raw read of a session asks for more than 1024 bytes. When the sample size of the
  session is greater than 1024, \<open>1024 div sample_size\<close> is 0: every raw read asks for 0
  bytes, and every entry, in the list or signalled, still has the \<open>nb\<close> it was inserted
  with.
\<close>

theorem read_thd_read_bounded:
  "(\<forall>len\<in>set (reads (acts (final (read_thd se entry es devs)))). len \<le> 1024)
   \<and> (1024 < sample_size entry \<longrightarrow>
        (\<forall>len\<in>set (reads (acts (final (read_thd se entry es devs)))). len = 0)
        \<and> (\<forall>t\<in>set (thdlist (final (read_thd se entry es devs))
                    @ signalled (final (read_thd se entry es devs))).
             \<exists>t0\<in>set (thdlist_head entry @ joined es). tid t = tid t0 \<and> nb t = nb t0))"
proof (intro conjI impI)
  let ?sz = "sample_size entry"
  show "\<forall>len\<in>set (reads (acts (final (read_thd se entry es devs)))). len \<le> 1024"
  proof (rule read_thd_reads)
    fix n assume "n \<le> 1024 div ?sz"
    then have "n * ?sz \<le> (1024 div ?sz) * ?sz" by (rule mult_le_mono1)
    also have "\<dots> \<le> 1024" by simp
    finally show "n * ?sz \<le> 1024" .
  qed
  assume big: "1024 < ?sz"
  show "\<forall>len\<in>set (reads (acts (final (read_thd se entry es devs)))). len = 0"
    by (rule read_thd_reads) (use big in simp)
  let ?R = "\<lambda>t0 t. tid t = tid t0 \<and> nb t = nb t0"
  let ?w0 = "\<lparr>thdlist = thdlist_head entry, ret = 0, signalled = [], acts = []\<rparr>"
  have "sim ?R ?R (set (thdlist_head entry) \<union> set (joined es))
          (final (read_thd_from se ?sz (dev entry) es devs ?w0))"
  proof (rule read_thd_from_sim)
    show "sim ?R ?R (set (thdlist_head entry)) ?w0" by (auto simp: sim_def)
  next
    fix e len r buf t0 t rm t'
    assume len: "?sz dvd len" "len \<le> 1024" and hw: "hw_call (reading e) len = (r, buf)"
      and K: "tid t = tid t0 \<and> nb t = nb t0"
      and D: "deliver se ?sz r buf (to_size_t (c_div r (int ?sz))) t = (rm, t')"
    from len big have "len = 0" by (auto dest: dvd_imp_le)
    with hw hw_call_cases [OF hw] have "buf = []" "r \<le> 0" by auto
    with D deliver_empty [of r se ?sz t rm t'] K
    show "if rm then tid t' = tid t0 \<and> nb t' = nb t0 else tid t' = tid t0 \<and> nb t' = nb t0"
      by simp
  qed simp_all
  with big show "\<forall>t\<in>set (thdlist (final (read_thd se entry es devs))
                    @ signalled (final (read_thd se entry es devs))).
             \<exists>t0\<in>set (thdlist_head entry @ joined es). tid t = tid t0 \<and> nb t = nb t0"
    by (auto simp: read_thd_def sim_def)
qed

theorem read_thd_read_bounded_witness:
  "1024 < sample_size (session_A\<lparr>sample_size := 2048\<rparr>)
   \<and> reads (acts (final (read_thd strerror_none (session_A\<lparr>sample_size := 2048\<rparr>)
        (take 2 script_AB) []))) = [0, 0]
   \<and> map nb (thdlist (final (read_thd strerror_none (session_A\<lparr>sample_size := 2048\<rparr>)
        (take 2 script_AB) []))) = [2, 3]"
proof -
  have big: "1024 < sample_size (session_A\<lparr>sample_size := 2048\<rparr>)" by simp
  have run: "reads (acts (final (read_thd strerror_none (session_A\<lparr>sample_size := 2048\<rparr>)
        (take 2 script_AB) []))) = [0, 0]
   \<and> map nb (thdlist (final (read_thd strerror_none (session_A\<lparr>sample_size := 2048\<rparr>)
        (take 2 script_AB) []))) = [2, 3]"
    by code_simp
  from big read_thd_read_bounded [of strerror_none "session_A\<lparr>sample_size := 2048\<rparr>"
        "take 2 script_AB" "[]"]
  have "\<forall>len\<in>set (reads (acts (final (read_thd strerror_none
          (session_A\<lparr>sample_size := 2048\<rparr>) (take 2 script_AB) [])))). len = 0"
    by blast
  with big run show ?thesis by simp
qed

subsection \<open>A request with another sample size\<close>

text \<open>
  C7. When the device of a streaming read already has a session and the sample size of the
  request differs from the session's, \<^verbatim>\<open>read_dev\<close> returns \<open>-22\<close> (minus EINVAL) at
  once: the device list with all its sessions and their entries is unchanged, no call is
  made on a device, and nothing is written to the sink of the request.
\<close>

theorem read_dev_size_mismatch:
  assumes "get_device (ctx pdata) ident = Some d"
    and "find (\<lambda>e. dev e = d) devs = Some entry"
    and "sample_size entry \<noteq> sz"
  shows "read_dev strerror_r env devs pdata ident n sz =
           ((Returned (- 22), devs, []), out pdata)"
  using assms by (simp add: read_dev_def read_buffer_attach_def EINVAL_def)

theorem read_dev_size_mismatch_witness:
  "read_dev strerror_none env_ok [session_A] pdata_C ''adc'' 5 2 =
     ((Returned (- 22), [session_A], []), \<lparr>chunks = [], room = []\<rparr>)"
  using read_dev_size_mismatch [of pdata_C "''adc''" adc "[session_A]" session_A 2
      strerror_none env_ok 5]
  by (simp add: get_device_def pdata_C_def adc_def session_A_def)

subsection \<open>Status lines of a broadcast\<close>




subsection \<open>A sink that refuses the data\<close>

lemma show_int_12: "show_int 12 = ''12''"
  by code_simp

lemma deliver_req_C:
  "deliver strerror_none 4 12 ''0123456789ab'' 3 req_C =
     (False, req_C\<lparr>nb := 5, fd := \<lparr>chunks = [Printed ''12\<newline>''], room = []\<rparr>\<rparr>)"
  by (simp add: deliver_def req_C_def fprintf_def write_all_def
      write_all_loop_code [of 0 "''0123456789ab''"] fwrite_def to_size_t_def EIO_def Let_def
      show_int_12)

text \<open>
  C4. \<^verbatim>\<open>write_all\<close> returns \<open>-5\<close> (minus EIO) on the sink of \<open>req_C\<close>, but
  \<^verbatim>\<open>ret2\<close> is a \<^verbatim>\<open>size_t\<close>: the test \<^verbatim>\<open>ret2 < 0\<close> of line 151 never holds. The
  entry is not removed, no outcome is stored and nobody is signalled; instead \<^verbatim>\<open>nb\<close>
  wraps from 3 to 5.
\<close>

theorem write_failure_not_reported:
  "fst (write_all ''0123456789ab'' (fprintf (fd req_C) ''12\<newline>'')) = - 5
   \<and> read_thd strerror_none (session_A\<lparr>thdlist_head := [req_C]\<rparr>)
         [\<lparr>joins_before = [], malloc_ok = True, joins_during = [],
           reading = Gives ''0123456789ab''\<rparr>] [] =
       In_loop \<lparr>thdlist = [req_C\<lparr>nb := 5, fd := \<lparr>chunks = [Printed ''12\<newline>''], room = []\<rparr>\<rparr>],
                ret = 12, signalled = [],
                acts = [Lock Devlist_lock, Lock Thdlist_lock, Unlock Thdlist_lock,
                        Unlock Devlist_lock, Read_raw 12, Lock Thdlist_lock,
                        Unlock Thdlist_lock]\<rparr>"
proof
  show "fst (write_all ''0123456789ab'' (fprintf (fd req_C) ''12\<newline>'')) = - 5"
    by (simp add: req_C_def fprintf_def write_all_def
        write_all_loop_code [of 0 "''0123456789ab''"] fwrite_def EIO_def)
  have b: "batch 256 [req_C] = 3"
    by (simp add: batch_def req_C_def)
  have n: "to_size_t (c_div 12 4) = 3"
    by (simp add: to_size_t_def c_div_def)
  show "read_thd strerror_none (session_A\<lparr>thdlist_head := [req_C]\<rparr>)
         [\<lparr>joins_before = [], malloc_ok = True, joins_during = [],
           reading = Gives ''0123456789ab''\<rparr>] [] =
       In_loop \<lparr>thdlist = [req_C\<lparr>nb := 5, fd := \<lparr>chunks = [Printed ''12\<newline>''], room = []\<rparr>\<rparr>],
                ret = 12, signalled = [],
                acts = [Lock Devlist_lock, Lock Thdlist_lock, Unlock Thdlist_lock,
                        Unlock Devlist_lock, Read_raw 12, Lock Thdlist_lock,
                        Unlock Thdlist_lock]\<rparr>"
    by (simp add: read_thd_def read_thd_from_def session_A_def loop_body_def loop_tail_def
        insert_head_def broadcast_def Let_def b n deliver_req_C)
qed

subsection \<open>A raw read that fails\<close>

text \<open>
  C5. Let a pass of the loop issue a raw read (it starts with \<open>ret\<close> not negative, finds
  the list non-empty and gets its buffer) and let the read fail with the negated error
  number \<open>- errno\<close>. Then the thread leaves the loop in the next pass and terminates: its
  list is empty, and every entry that was in the list when the failing pass computed its
  batch has been signalled with its \<open>nb\<close> untouched and \<open>err = - errno\<close>. The
  session has left the device list, in which no session of the device remains, and a
  later \<^verbatim>\<open>read_buffer\<close> for the same device opens the device and registers a new
  session that holds only the new entry.
\<close>

theorem read_failure_drains_session:
  assumes errno: "0 < errno"
    and w: "0 \<le> ret w"
    and e: "malloc_ok e" "reading e = Fails errno"
    and thds: "insert_head (joins_before e) (thdlist w) \<noteq> []"
    and devs: "distinct (map dev devs)"
    and env: "thd_alloc env = Some a" "entry_alloc env" "open_ret env = 0" "create_ret env = 0"
  shows "read_thd_from strerror_r sz d (e # e' # es) devs w =
           Terminated (final (read_thd_from strerror_r sz d (e # e' # es) devs w))
             (remove_entry d devs)
         \<and> thdlist (final (read_thd_from strerror_r sz d (e # e' # es) devs w)) = []
         \<and> (\<forall>t\<in>set (insert_head (joins_before e) (thdlist w)).
               \<exists>t'\<in>set (signalled (final (read_thd_from strerror_r sz d (e # e' # es) devs w))).
                 tid t' = tid t \<and> nb t' = nb t \<and> err t' = Some (- int errno))
         \<and> find (\<lambda>x. dev x = d) (remove_entry d devs) = None
         \<and> read_buffer_attach env (remove_entry d devs) pdata d n sz' =
             (Waiting \<lparr>tid = a, nb = n, err = None, fd = out pdata, verbose = pverbose pdata\<rparr>,
              \<lparr>dev = d, sample_size = sz',
                thdlist_head = [\<lparr>tid = a, nb = n, err = None, fd = out pdata,
                                 verbose = pverbose pdata\<rparr>]\<rparr> # remove_entry d devs,
              [Open d])"
proof -
  let ?T = "read_thd_from strerror_r sz d (e # e' # es) devs w"
  let ?w1 = "snd (loop_body strerror_r sz e w)"
  let ?w2 = "snd (loop_body strerror_r sz e' ?w1)"
  let ?P = "\<lambda>t. t\<lparr>fd := fprintf (fd t)
                  (if verbose t then ''ERROR reading device: '' @ strerror_r (- int errno) @ ''\<newline>''
                   else show_int (- int errno) @ ''\<newline>'')\<rparr>"
  note p1 = loop_body_failed_read [OF w e errno thds, of strerror_r sz]
  from p1(2) errno have neg: "ret ?w1 < 0" by simp
  note p2 = loop_body_after_failure [OF neg, of strerror_r sz e']
  have loop: "read_thd_loop strerror_r sz (e # e' # es) w = (True, ?w2)"
    by (simp add: read_thd_loop_Cons p1(1) p2(1) del: read_thd_loop.simps)
  then have T: "?T = Terminated (fst (read_thd_exit d ?w2 devs)) (remove_entry d devs)"
    by (simp add: read_thd_from_def read_thd_exit_def)
  then have fin: "final ?T = fst (read_thd_exit d ?w2 devs)" by simp
  have sig: "signalled (final ?T) =
               signalled w @ map (\<lambda>t. t\<lparr>err := Some (- int errno)\<rparr>) (thdlist ?w2)"
    using p1(2,3) p2(2,3) errno by (simp add: fin drain_def)
  have "\<exists>t'\<in>set (signalled (final ?T)). tid t' = tid t \<and> nb t' = nb t \<and> err t' = Some (- int errno)"
    if "t \<in> set (insert_head (joins_before e) (thdlist w))" for t
  proof -
    from that
    have "t \<in> set (insert_head (joins_during e) (insert_head (joins_before e) (thdlist w)))"
      by simp
    then have "?P t \<in> ?P ` set (insert_head (joins_during e)
                                 (insert_head (joins_before e) (thdlist w)))"
      by (rule imageI)
    then have "?P t \<in> set (thdlist ?w1)"
      unfolding p1(4) by (simp only: set_map)
    then have "?P t \<in> set (thdlist ?w2)"
      by (simp add: p2(4))
    then have "(?P t)\<lparr>err := Some (- int errno)\<rparr> \<in> set (signalled (final ?T))"
      by (simp add: sig)
    then show ?thesis
      by (rule rev_bexI) simp
  qed
  moreover have "thdlist (final ?T) = []" by (simp add: fin)
  moreover note find_remove_entry [OF devs, of d]
  moreover from this env
  have "read_buffer_attach env (remove_entry d devs) pdata d n sz' =
             (Waiting \<lparr>tid = a, nb = n, err = None, fd = out pdata, verbose = pverbose pdata\<rparr>,
              \<lparr>dev = d, sample_size = sz',
                thdlist_head = [\<lparr>tid = a, nb = n, err = None, fd = out pdata,
                                 verbose = pverbose pdata\<rparr>]\<rparr> # remove_entry d devs,
              [Open d])"
    by (rule read_buffer_attach_fresh)
  ultimately show ?thesis
    using T fin by simp
qed

theorem read_failure_drains_session_witness:
  "read_thd_from strerror_none 4 adc script_fail [session_A] w_A =
     Terminated (final (read_thd_from strerror_none 4 adc script_fail [session_A] w_A)) []
   \<and> map (\<lambda>t. (tid t, nb t, err t))
         (signalled (final (read_thd_from strerror_none 4 adc script_fail [session_A] w_A))) =
       [(2, 2, Some (- 5)), (1, 3, Some (- 5))]
   \<and> read_buffer_attach env_ok [] pdata_C adc 9 8 =
       (Waiting \<lparr>tid = 7, nb = 9, err = None, fd = \<lparr>chunks = [], room = []\<rparr>, verbose = False\<rparr>,
        [\<lparr>dev = adc, sample_size = 8,
          thdlist_head = [\<lparr>tid = 7, nb = 9, err = None, fd = \<lparr>chunks = [], room = []\<rparr>,
                           verbose = False\<rparr>]\<rparr>],
        [Open adc])"
proof -
  let ?e = "\<lparr>joins_before = [], malloc_ok = True, joins_during = [req_B], reading = Fails 5\<rparr>"
  let ?e' = "\<lparr>joins_before = [], malloc_ok = True, joins_during = [], reading = Gives []\<rparr>"
  have sig: "map (\<lambda>t. (tid t, nb t, err t))
         (signalled (final (read_thd_from strerror_none 4 adc script_fail [session_A] w_A))) =
       [(2, 2, Some (- 5)), (1, 3, Some (- 5))]"
    by (simp add: read_thd_from_def read_thd_loop_Cons loop_body_def loop_tail_def Let_def
        broadcast_failed insert_head_def drain_def read_thd_exit_def script_fail_def w_A_def
        req_A_def req_B_def del: read_thd_loop.simps)
  have "read_thd_from strerror_none 4 adc (?e # ?e' # []) [session_A] w_A =
           Terminated (final (read_thd_from strerror_none 4 adc (?e # ?e' # []) [session_A] w_A))
             (remove_entry adc [session_A])
         \<and> thdlist (final (read_thd_from strerror_none 4 adc (?e # ?e' # []) [session_A] w_A)) = []
         \<and> (\<forall>t\<in>set (insert_head (joins_before ?e) (thdlist w_A)).
               \<exists>t'\<in>set (signalled (final (read_thd_from strerror_none 4 adc (?e # ?e' # [])
                            [session_A] w_A))).
                 tid t' = tid t \<and> nb t' = nb t \<and> err t' = Some (- int 5))
         \<and> find (\<lambda>x. dev x = adc) (remove_entry adc [session_A]) = None
         \<and> read_buffer_attach env_ok (remove_entry adc [session_A]) pdata_C adc 9 8 =
             (Waiting \<lparr>tid = 7, nb = 9, err = None, fd = out pdata_C, verbose = pverbose pdata_C\<rparr>,
              \<lparr>dev = adc, sample_size = 8,
                thdlist_head = [\<lparr>tid = 7, nb = 9, err = None, fd = out pdata_C,
                                 verbose = pverbose pdata_C\<rparr>]\<rparr> # remove_entry adc [session_A],
              [Open adc])"
    by (rule read_failure_drains_session)
       (simp_all add: w_A_def insert_head_def env_ok_def)
  with sig show ?thesis
    by (simp add: session_A_def script_fail_def pdata_C_def)
qed

subsection \<open>The count of an entry over its life\<close>

text \<open>
  C6, as the code has it, with \<open>sample_size\<close> not 0. First one pass of the loop that
  reaches the broadcast, from any state of the thread: take an entry that is in the list
  when the broadcast runs and whose sink refuses no write, and let \<open>q\<close> be the number of
  whole samples in what the raw read brought. The entry keeps its identity. If the read
  failed or \<open>q\<close> is more than its \<open>nb\<close> (the entry is passed over), its \<open>nb\<close> is unchanged
  and it stays in the list. Otherwise its \<open>nb\<close> goes down by exactly \<open>q\<close>, which is no
  change when the read brought less than one whole sample and a strict decrease in every
  other case; it never goes below 0, and the entry is removed and signalled in this pass
  when its \<open>nb\<close> has reached 0 and stays in the list when it has not.

  Then a whole run, from any state of the loop and against any script: afterwards every
  entry, in the list or signalled, is one of the entries that were there or that the
  script inserted, and if its sink never refuses a write its \<open>nb\<close> is at most what it
  was. If the identities were distinct, no identity occurs twice among the list and the
  signalled entries; none is lost, the signalled entries stay signalled in the same
  order, and when the thread has terminated its list is empty: every entry has been
  removed exactly once.
\<close>

theorem remaining_never_increases:
  assumes "0 < sz"
  shows "(\<forall>e v v' r buf t.
            loop_body strerror_r sz e v = (False, v')
            \<and> hw_call (reading e)
                (batch (1024 div sz) (insert_head (joins_before e) (thdlist v)) * sz) = (r, buf)
            \<and> t \<in> set (insert_head (joins_during e) (insert_head (joins_before e) (thdlist v)))
            \<and> 0 \<notin> set (room (fd t)) \<longrightarrow>
            (\<exists>t' new. signalled v' = signalled v @ new \<and> t' \<in> set (thdlist v' @ new)
               \<and> tid t' = tid t
               \<and> (r < 0 \<or> nb t < length buf div sz \<longrightarrow>
                    nb t' = nb t \<and> t' \<in> set (thdlist v'))
               \<and> (0 \<le> r \<and> length buf div sz \<le> nb t \<longrightarrow>
                    nb t' \<le> nb t - length buf div sz
                    \<and> (nb t < 2 ^ 32 \<longrightarrow> nb t' = nb t - length buf div sz)
                    \<and> (if nb t' = 0 then t' \<in> set new else t' \<in> set (thdlist v')))))
         \<and> (\<forall>t\<in>set (thdlist (final (read_thd_from strerror_r sz d es devs w))
                  @ signalled (final (read_thd_from strerror_r sz d es devs w))).
            \<exists>t0\<in>set (thdlist w @ signalled w @ joined es).
              tid t = tid t0 \<and> (0 \<notin> set (room (fd t0)) \<longrightarrow> nb t \<le> nb t0))
         \<and> (distinct (map tid (thdlist w @ signalled w @ joined es)) \<longrightarrow>
              distinct (map tid (thdlist (final (read_thd_from strerror_r sz d es devs w))
                  @ signalled (final (read_thd_from strerror_r sz d es devs w)))))
         \<and> set (map tid (thdlist w @ signalled w))
             \<subseteq> set (map tid (thdlist (final (read_thd_from strerror_r sz d es devs w))
                  @ signalled (final (read_thd_from strerror_r sz d es devs w))))
         \<and> (\<exists>new. signalled (final (read_thd_from strerror_r sz d es devs w)) = signalled w @ new)
         \<and> (terminated (read_thd_from strerror_r sz d es devs w) \<longrightarrow>
               thdlist (final (read_thd_from strerror_r sz d es devs w)) = [])"
proof (intro conjI)
  show "\<forall>e v v' r buf t.
            loop_body strerror_r sz e v = (False, v')
            \<and> hw_call (reading e)
                (batch (1024 div sz) (insert_head (joins_before e) (thdlist v)) * sz) = (r, buf)
            \<and> t \<in> set (insert_head (joins_during e) (insert_head (joins_before e) (thdlist v)))
            \<and> 0 \<notin> set (room (fd t)) \<longrightarrow>
            (\<exists>t' new. signalled v' = signalled v @ new \<and> t' \<in> set (thdlist v' @ new)
               \<and> tid t' = tid t
               \<and> (r < 0 \<or> nb t < length buf div sz \<longrightarrow>
                    nb t' = nb t \<and> t' \<in> set (thdlist v'))
               \<and> (0 \<le> r \<and> length buf div sz \<le> nb t \<longrightarrow>
                    nb t' \<le> nb t - length buf div sz
                    \<and> (nb t < 2 ^ 32 \<longrightarrow> nb t' = nb t - length buf div sz)
                    \<and> (if nb t' = 0 then t' \<in> set new else t' \<in> set (thdlist v'))))"
  proof (intro allI impI)
    fix e :: round_env and v v' :: worker and r :: int and buf :: string and t :: ThdEntry
    let ?l = "insert_head (joins_before e) (thdlist v)"
    let ?l2 = "insert_head (joins_during e) ?l"
    assume a: "loop_body strerror_r sz e v = (False, v')
            \<and> hw_call (reading e) (batch (1024 div sz) ?l * sz) = (r, buf)
            \<and> t \<in> set ?l2 \<and> 0 \<notin> set (room (fd t))"
    then have lb: "\<not> fst (loop_body strerror_r sz e v)"
      and v': "v' = snd (loop_body strerror_r sz e v)"
      and hw: "hw_call (reading e) (batch (1024 div sz) ?l * sz) = (r, buf)"
      and t: "t \<in> set ?l2" and good: "0 \<notin> set (room (fd t))"
      by simp_all
    from lb obtain r1 buf1 kept woken where
      hw1: "hw_call (reading e) (batch (1024 div sz) ?l * sz) = (r1, buf1)"
      and bc1: "broadcast strerror_r sz r1 buf1 (to_size_t (c_div r1 (int sz))) ?l2 = (kept, woken)"
      and k: "thdlist (snd (loop_body strerror_r sz e v)) = kept"
      and s: "signalled (snd (loop_body strerror_r sz e v)) = signalled v @ woken"
      by (rule loop_body_pass)
    from hw hw1 have "r1 = r" "buf1 = buf" by simp_all
    with bc1
    have bc: "broadcast strerror_r sz r buf (to_size_t (c_div r (int sz))) ?l2 = (kept, woken)"
      by simp
    from bc t obtain rm t'
      where D: "deliver strerror_r sz r buf (to_size_t (c_div r (int sz))) t = (rm, t')"
        and m: "if rm then t' \<in> set woken else t' \<in> set kept"
      by (rule broadcast_input)
    note st = deliver_step [OF hw batch_bytes_le good D]
    have "signalled v' = signalled v @ woken" using s v' by simp
    moreover have "t' \<in> set (thdlist v' @ woken)"
      using m k v' by (simp split: if_splits)
    moreover have "r < 0 \<or> nb t < length buf div sz \<longrightarrow> nb t' = nb t \<and> t' \<in> set (thdlist v')"
      using st(2) m k v' by auto
    moreover have "0 \<le> r \<and> length buf div sz \<le> nb t \<longrightarrow>
                    nb t' \<le> nb t - length buf div sz
                    \<and> (nb t < 2 ^ 32 \<longrightarrow> nb t' = nb t - length buf div sz)
                    \<and> (if nb t' = 0 then t' \<in> set woken else t' \<in> set (thdlist v'))"
      using st(3) m k v' by auto
    ultimately
    show "\<exists>t' new. signalled v' = signalled v @ new \<and> t' \<in> set (thdlist v' @ new)
               \<and> tid t' = tid t
               \<and> (r < 0 \<or> nb t < length buf div sz \<longrightarrow>
                    nb t' = nb t \<and> t' \<in> set (thdlist v'))
               \<and> (0 \<le> r \<and> length buf div sz \<le> nb t \<longrightarrow>
                    nb t' \<le> nb t - length buf div sz
                    \<and> (nb t < 2 ^ 32 \<longrightarrow> nb t' = nb t - length buf div sz)
                    \<and> (if nb t' = 0 then t' \<in> set new else t' \<in> set (thdlist v')))"
      using st(1) by (intro exI [of _ t'] exI [of _ woken]) (simp only: simp_thms)
  qed
  let ?F = "final (read_thd_from strerror_r sz d es devs w)"
  let ?R = "\<lambda>t0 t. tid t = tid t0 \<and>
              (0 \<notin> set (room (fd t0)) \<longrightarrow> 0 \<notin> set (room (fd t)) \<and> nb t \<le> nb t0)"
  have "sim ?R ?R (set (thdlist w) \<union> set (signalled w) \<union> set (joined es)) ?F"
  proof (rule read_thd_from_sim)
    show "sim ?R ?R (set (thdlist w) \<union> set (signalled w)) w"
      by (auto simp: sim_def)
  next
    fix e len r buf t0 t rm t'
    assume len: "len \<le> 1024" and hw: "hw_call (reading e) len = (r, buf)"
      and K: "tid t = tid t0 \<and>
              (0 \<notin> set (room (fd t0)) \<longrightarrow> 0 \<notin> set (room (fd t)) \<and> nb t \<le> nb t0)"
      and D: "deliver strerror_r sz r buf (to_size_t (c_div r (int sz))) t = (rm, t')"
    have "tid t' = tid t0"
      using deliver_tid [OF D] K by simp
    moreover have "0 \<notin> set (room (fd t')) \<and> nb t' \<le> nb t0" if "0 \<notin> set (room (fd t0))"
      using deliver_mono [OF hw len _ D] K that by auto
    ultimately
    show "if rm then tid t' = tid t0 \<and>
                (0 \<notin> set (room (fd t0)) \<longrightarrow> 0 \<notin> set (room (fd t')) \<and> nb t' \<le> nb t0)
          else tid t' = tid t0 \<and>
                (0 \<notin> set (room (fd t0)) \<longrightarrow> 0 \<notin> set (room (fd t')) \<and> nb t' \<le> nb t0)"
      by simp
  qed simp_all
  then show "\<forall>t\<in>set (thdlist ?F @ signalled ?F).
            \<exists>t0\<in>set (thdlist w @ signalled w @ joined es).
              tid t = tid t0 \<and> (0 \<notin> set (room (fd t0)) \<longrightarrow> nb t \<le> nb t0)"
    unfolding sim_def by (simp add: Un_assoc) blast
  note t = tids_final [of w strerror_r sz d es devs]
  have src: "tids w + mset (map tid (joined es)) = mset (map tid (thdlist w @ signalled w @ joined es))"
    by (simp add: tids_def)
  have fin: "tids ?F = mset (map tid (thdlist ?F @ signalled ?F))"
    by (simp add: tids_def)
  from t have "tids ?F \<subseteq># tids w + mset (map tid (joined es))"
    by (rule conjunct2)
  then have "mset (map tid (thdlist ?F @ signalled ?F))
      \<subseteq># mset (map tid (thdlist w @ signalled w @ joined es))"
    by (simp only: src fin)
  then show "distinct (map tid (thdlist w @ signalled w @ joined es)) \<longrightarrow>
      distinct (map tid (thdlist ?F @ signalled ?F))"
    by (blast intro: distinct_mset_subseteq)
  have ini: "tids w = mset (map tid (thdlist w @ signalled w))"
    by (simp add: tids_def)
  from t have "tids w \<subseteq># tids ?F"
    by (rule conjunct1)
  then have "mset (map tid (thdlist w @ signalled w))
      \<subseteq># mset (map tid (thdlist ?F @ signalled ?F))"
    by (simp only: ini fin)
  then show "set (map tid (thdlist w @ signalled w)) \<subseteq> set (map tid (thdlist ?F @ signalled ?F))"
    by (rule set_mset_mono [of "mset _" "mset _", simplified set_mset_mset])
  show "\<exists>new. signalled ?F = signalled w @ new"
    by (rule signalled_final)
  show "terminated (read_thd_from strerror_r sz d es devs w) \<longrightarrow> thdlist ?F = []"
    using terminated_thdlist by blast
qed

theorem remaining_never_increases_witness:
  "map (\<lambda>t. (tid t, nb t)) (thdlist (snd (loop_body strerror_none 4 (hd script_AB) w_A)))
     = [(2, 2)]
   \<and> map (\<lambda>t. (tid t, nb t)) (signalled (snd (loop_body strerror_none 4 (hd script_AB) w_A)))
     = [(1, 0)]
   \<and> map (\<lambda>t. (tid t, nb t)) (signalled (final (read_thd_from strerror_none 4 adc script_AB [] w_A)))
     = [(1, 0), (2, 0)]
   \<and> thdlist (final (read_thd_from strerror_none 4 adc script_AB [] w_A)) = []
   \<and> distinct (map tid (thdlist (final (read_thd_from strerror_none 4 adc script_AB [] w_A))
                  @ signalled (final (read_thd_from strerror_none 4 adc script_AB [] w_A))))"
proof -
  have d: "distinct (map tid (thdlist w_A @ signalled w_A @ joined script_AB))"
    by (simp add: w_A_def joined_def script_AB_def req_A_def req_B_def)
  have ev: "map (\<lambda>t. (tid t, nb t)) (thdlist (snd (loop_body strerror_none 4 (hd script_AB) w_A)))
     = [(2, 2)]
   \<and> map (\<lambda>t. (tid t, nb t)) (signalled (snd (loop_body strerror_none 4 (hd script_AB) w_A)))
     = [(1, 0)]
   \<and> map (\<lambda>t. (tid t, nb t))
       (signalled (final (read_thd_from strerror_none 4 adc script_AB [] w_A))) = [(1, 0), (2, 0)]
     \<and> thdlist (final (read_thd_from strerror_none 4 adc script_AB [] w_A)) = []"
    by code_simp
  have "(0::nat) < 4" by simp
  from remaining_never_increases [where sz = 4 and strerror_r = strerror_none and w = w_A
      and es = script_AB and d = adc and devs = "[]", OF this] d
  have "distinct (map tid (thdlist (final (read_thd_from strerror_none 4 adc script_AB [] w_A))
                  @ signalled (final (read_thd_from strerror_none 4 adc script_AB [] w_A))))"
    by blast
  with ev show ?thesis by simp
qed

text \<open>
  The count does not decrease in every pass. In \<open>script_AB\<close>, \<open>req_B\<close> is in the list
  when the first broadcast runs, the raw read has 3 samples, one more than \<open>req_B\<close> asks
  for, and \<open>req_B\<close> is passed over (lines 141-145) with its \<open>nb\<close> still 2. And when
  the device has only 3 bytes, less than a sample, \<open>req_A\<close> gets these bytes and keeps
  its \<open>nb\<close> of 3.
\<close>

theorem remaining_not_strictly_decreasing:
  "nb req_B = 2
   \<and> reads (acts (final (read_thd strerror_none session_A (take 1 script_AB) []))) = [12]
   \<and> map (\<lambda>t. (tid t, nb t))
        (thdlist (final (read_thd strerror_none session_A (take 1 script_AB) []))) = [(2, 2)]
   \<and> nb req_A = 3
   \<and> map (\<lambda>t. (tid t, nb t, chunks (fd t)))
        (thdlist (final (read_thd strerror_none session_A
           [\<lparr>joins_before = [], malloc_ok = True, joins_during = [], reading = Gives ''012''\<rparr>] [])))
       = [(1, 3, [Printed ''3\<newline>'', Written ''012''])]"
  by code_simp

subsection \<open>What a request has received when it returns\<close>

text \<open>
  C2, as the code has it. Take a session with \<open>sample_size\<close> not 0 and any script of
  insertions in which the device has a whole number of samples ready for every raw read.

  Every entry that the thread has signalled is one of the entries inserted, and if that
  entry was inserted with a sink that never refuses a write, with \<open>nb < 2 ^ 32\<close> and no
  outcome, then either its outcome is 0, fwrite has put exactly \<open>nb * sample_size\<close>
  bytes on its sink since it was inserted, and \<^verbatim>\<open>read_buffer\<close> returns
  \<open>nb * sample_size\<close> as the 32-bit product; or its outcome is a negative code, which
  \<^verbatim>\<open>read_buffer\<close> returns.

  Once the list is empty, the next pass of the loop, if nothing is inserted before it, is
  the last: the thread terminates.

  And every request is served. Let \<open>sample_size\<close> be at most 1024, let the thread still be
  in its loop after the script, let the requests have distinct identities, sinks that
  refuse no write and \<open>nb < 2 ^ 32\<close>, and let the script be followed by passes in
  which nobody arrives, one more than the requests have samples and entries in all
  (\<open>owed\<close>); in every pass let malloc succeed and the device have at least one sample
  ready. Then the thread terminates within these passes, and it has signalled every
  request of the script with outcome 0, after exactly \<open>nb * sample_size\<close> bytes on its
  sink, and \<^verbatim>\<open>read_buffer\<close> returns \<open>nb * sample_size\<close> as the 32-bit product.
\<close>

theorem requests_get_requested_samples:
  assumes sz: "0 < sample_size entry"
    and whole: "list_all (whole_samples (sample_size entry)) es"
  shows "(\<forall>t\<in>set (signalled (final (read_thd strerror_r entry es devs))).
            \<exists>t0\<in>set (thdlist_head entry @ joined es). tid t = tid t0 \<and>
              (0 \<notin> set (room (fd t0)) \<and> nb t0 < 2 ^ 32 \<and> err t0 = None \<longrightarrow>
                 err t = Some 0
                 \<and> payload (fd t) = payload (fd t0) + nb t0 * sample_size entry
                 \<and> read_buffer_return (nb t0) (sample_size entry) t =
                     Some (int ((nb t0 * sample_size entry) mod 2 ^ 32))
                 \<or> (\<exists>c<0. err t = Some c
                       \<and> read_buffer_return (nb t0) (sample_size entry) t = Some c)))
         \<and> (\<forall>e es'. thdlist (final (read_thd strerror_r entry es devs)) = []
                       \<and> joins_before e = [] \<longrightarrow>
                terminated (read_thd strerror_r entry (es @ e # es') devs))
         \<and> (\<forall>idle. sample_size entry \<le> 1024
                  \<and> list_all (device_ready (sample_size entry)) (es @ idle)
                  \<and> joined idle = []
                  \<and> list_all proper (thdlist_head entry @ joined es)
                  \<and> distinct (map tid (thdlist_head entry @ joined es))
                  \<and> \<not> terminated (read_thd strerror_r entry es devs)
                  \<and> owed (thdlist_head entry @ joined es) < length idle \<longrightarrow>
                terminated (read_thd strerror_r entry (es @ idle) devs)
                \<and> (\<forall>t0\<in>set (thdlist_head entry @ joined es).
                     \<exists>t\<in>set (signalled (final (read_thd strerror_r entry (es @ idle) devs))).
                       tid t = tid t0 \<and> err t = Some 0
                       \<and> payload (fd t) = payload (fd t0) + nb t0 * sample_size entry
                       \<and> read_buffer_return (nb t0) (sample_size entry) t =
                           Some (int ((nb t0 * sample_size entry) mod 2 ^ 32))))"
proof (intro conjI allI impI)
  let ?sz = "sample_size entry"
  let ?w0 = "\<lparr>thdlist = thdlist_head entry, ret = 0, signalled = [], acts = []\<rparr>"
  let ?T = "read_thd_from strerror_r ?sz (dev entry) es devs ?w0"
  have T: "read_thd strerror_r entry xs devs =
             read_thd_from strerror_r ?sz (dev entry) xs devs ?w0" for xs
    using sz by (simp add: read_thd_def)
  let ?G = "\<lambda>t. 0 \<notin> set (room (fd t)) \<and> nb t < 2 ^ 32 \<and> err t = None"
  let ?K = "\<lambda>t0 t. tid t = tid t0 \<and>
              (?G t0 \<longrightarrow> ?G t \<and> payload (fd t) + nb t * ?sz = payload (fd t0) + nb t0 * ?sz)"
  let ?S = "\<lambda>t0 t. tid t = tid t0 \<and>
              (?G t0 \<longrightarrow> err t = Some 0 \<and> payload (fd t) = payload (fd t0) + nb t0 * ?sz
                         \<or> (\<exists>c<0. err t = Some c))"
  have sim: "sim ?K ?S (set (thdlist_head entry) \<union> set (joined es)) (final ?T)"
  proof (rule read_thd_from_sim)
    show "sim ?K ?S (set (thdlist_head entry)) ?w0"
      by (auto simp: sim_def)
  next
    fix e len r buf t0 t rm t'
    assume e: "e \<in> set es" and dvd: "?sz dvd len" and len: "len \<le> 1024"
      and hw: "hw_call (reading e) len = (r, buf)"
      and K: "?K t0 t"
      and D: "deliver strerror_r ?sz r buf (to_size_t (c_div r (int ?sz))) t = (rm, t')"
    have tid: "tid t' = tid t0"
      using deliver_tid [OF D] K by simp
    from whole e have "\<forall>data. reading e = Gives data \<longrightarrow> ?sz dvd length data"
      by (auto simp: list_all_iff whole_samples_def)
    with hw dvd have bd: "?sz dvd length buf" by (rule hw_call_dvd)
    show "if rm then ?S t0 t' else ?K t0 t'"
    proof (cases "?G t0")
      case False
      with tid show ?thesis by auto
    next
      case True
      with K have G: "?G t" and eq: "payload (fd t) + nb t * ?sz = payload (fd t0) + nb t0 * ?sz"
        by simp_all
      from G have good: "0 \<notin> set (room (fd t))" and nb: "nb t < 2 ^ 32" and none: "err t = None"
        by simp_all
      from deliver_exact [OF hw len bd good nb D] eq none tid show ?thesis
        by (cases rm) auto
    qed
  next
    fix t0 t and r :: int
    assume "r < 0" and "?K t0 t"
    then show "?S t0 (t\<lparr>err := Some r\<rparr>)" by simp
  qed simp
  have "\<exists>t0\<in>set (thdlist_head entry @ joined es). tid t = tid t0 \<and>
              (0 \<notin> set (room (fd t0)) \<and> nb t0 < 2 ^ 32 \<and> err t0 = None \<longrightarrow>
                 err t = Some 0
                 \<and> payload (fd t) = payload (fd t0) + nb t0 * ?sz
                 \<and> read_buffer_return (nb t0) ?sz t = Some (int ((nb t0 * ?sz) mod 2 ^ 32))
                 \<or> (\<exists>c<0. err t = Some c \<and> read_buffer_return (nb t0) ?sz t = Some c))"
    if "t \<in> set (signalled (final (read_thd strerror_r entry es devs)))" for t
  proof -
    from that sim obtain t0 where t0: "t0 \<in> set (thdlist_head entry) \<union> set (joined es)"
      and S: "?S t0 t"
      unfolding T sim_def by blast
    from S have "tid t = tid t0 \<and>
              (0 \<notin> set (room (fd t0)) \<and> nb t0 < 2 ^ 32 \<and> err t0 = None \<longrightarrow>
                 err t = Some 0
                 \<and> payload (fd t) = payload (fd t0) + nb t0 * ?sz
                 \<and> read_buffer_return (nb t0) ?sz t = Some (int ((nb t0 * ?sz) mod 2 ^ 32))
                 \<or> (\<exists>c<0. err t = Some c \<and> read_buffer_return (nb t0) ?sz t = Some c))"
      by (auto simp: read_buffer_return_def)
    with t0 show ?thesis by auto
  qed
  then show "\<forall>t\<in>set (signalled (final (read_thd strerror_r entry es devs))).
            \<exists>t0\<in>set (thdlist_head entry @ joined es). tid t = tid t0 \<and>
              (0 \<notin> set (room (fd t0)) \<and> nb t0 < 2 ^ 32 \<and> err t0 = None \<longrightarrow>
                 err t = Some 0
                 \<and> payload (fd t) = payload (fd t0) + nb t0 * ?sz
                 \<and> read_buffer_return (nb t0) ?sz t = Some (int ((nb t0 * ?sz) mod 2 ^ 32))
                 \<or> (\<exists>c<0. err t = Some c \<and> read_buffer_return (nb t0) ?sz t = Some c))"
    by blast
  fix e :: round_env and es' :: "round_env list"
  assume a: "thdlist (final (read_thd strerror_r entry es devs)) = [] \<and> joins_before e = []"
  show "terminated (read_thd strerror_r entry (es @ e # es') devs)"
  proof (cases "fst (read_thd_loop strerror_r ?sz es ?w0)")
    case True
    then show ?thesis
      by (simp add: T terminated_read_thd_from read_thd_loop_append)
  next
    case False
    with a have "thdlist (snd (read_thd_loop strerror_r ?sz es ?w0)) = []"
      by (simp add: T final_read_thd_from)
    with a show ?thesis
      by (simp add: T terminated_read_thd_from read_thd_loop_one_more)
  qed
next
  let ?sz = "sample_size entry"
  let ?l0 = "thdlist_head entry"
  let ?w0 = "\<lparr>thdlist = ?l0, ret = 0, signalled = [], acts = []\<rparr>"
  have T: "read_thd strerror_r entry xs devs =
             read_thd_from strerror_r ?sz (dev entry) xs devs ?w0" for xs
    using sz by (simp add: read_thd_def)
  fix idle :: "round_env list"
  assume a: "?sz \<le> 1024
                  \<and> list_all (device_ready ?sz) (es @ idle)
                  \<and> joined idle = []
                  \<and> list_all proper (?l0 @ joined es)
                  \<and> distinct (map tid (?l0 @ joined es))
                  \<and> \<not> terminated (read_thd strerror_r entry es devs)
                  \<and> owed (?l0 @ joined es) < length idle"
  then have le: "?sz \<le> 1024" and rdy: "list_all (device_ready ?sz) (es @ idle)"
    and quiet: "joined idle = []" and P: "\<forall>t\<in>set (?l0 @ joined es). proper t"
    and dist: "distinct (map tid (?l0 @ joined es))"
    and run: "\<not> fst (read_thd_loop strerror_r ?sz es ?w0)"
    and bound: "owed (?l0 @ joined es) < length idle"
    by (simp_all add: T terminated_read_thd_from list_all_iff)
  note live = read_thd_serves_all [OF sz le rdy quiet P dist run bound]
  from live(1) show "terminated (read_thd strerror_r entry (es @ idle) devs)"
    by (simp add: T terminated_read_thd_from)
  show "\<forall>t0\<in>set (?l0 @ joined es).
          \<exists>t\<in>set (signalled (final (read_thd strerror_r entry (es @ idle) devs))).
             tid t = tid t0 \<and> err t = Some 0
             \<and> payload (fd t) = payload (fd t0) + nb t0 * ?sz
             \<and> read_buffer_return (nb t0) ?sz t = Some (int ((nb t0 * ?sz) mod 2 ^ 32))"
  proof
    fix t0 assume "t0 \<in> set (?l0 @ joined es)"
    with live(2) [of "dev entry" devs] obtain t
      where "t \<in> set (signalled (final (read_thd strerror_r entry (es @ idle) devs)))"
        and "tid t = tid t0" and "err t = Some 0"
        and "payload (fd t) = payload (fd t0) + nb t0 * ?sz"
      unfolding T by blast
    then show "\<exists>t\<in>set (signalled (final (read_thd strerror_r entry (es @ idle) devs))).
             tid t = tid t0 \<and> err t = Some 0
             \<and> payload (fd t) = payload (fd t0) + nb t0 * ?sz
             \<and> read_buffer_return (nb t0) ?sz t = Some (int ((nb t0 * ?sz) mod 2 ^ 32))"
      by (intro bexI [of _ t]) (simp_all add: read_buffer_return_def)
  qed
qed

theorem requests_get_requested_samples_witness:
  "map (\<lambda>t. (tid t, err t, payload (fd t)))
       (signalled (final (read_thd strerror_none session_A script_AB []))) =
     [(1, Some 0, 12), (2, Some 0, 8)]
   \<and> terminated (read_thd strerror_none session_A script_AB [])
   \<and> \<not> terminated (read_thd strerror_none session_A (take 1 script_AB) [])
   \<and> owed (thdlist_head session_A @ joined (take 1 script_AB)) = 7
   \<and> length script_idle = 8
   \<and> terminated (read_thd strerror_none session_A (take 1 script_AB @ script_idle) [])
   \<and> map (\<lambda>t. (tid t, err t, payload (fd t)))
       (signalled (final (read_thd strerror_none session_A (take 1 script_AB @ script_idle) [])))
       = [(1, Some 0, 12), (2, Some 0, 8)]"
proof -
  have h: "0 < sample_size session_A" "list_all (whole_samples (sample_size session_A)) script_AB"
    by code_simp+
  have ev: "map (\<lambda>t. (tid t, err t, payload (fd t)))
       (signalled (final (read_thd strerror_none session_A script_AB []))) =
     [(1, Some 0, 12), (2, Some 0, 8)]
   \<and> terminated (read_thd strerror_none session_A script_AB [])"
    by code_simp
  have h1: "list_all (whole_samples (sample_size session_A)) (take 1 script_AB)"
    by code_simp
  have a: "sample_size session_A \<le> 1024"
    "list_all (device_ready (sample_size session_A)) (take 1 script_AB @ script_idle)"
    "joined script_idle = []"
    "distinct (map tid (thdlist_head session_A @ joined (take 1 script_AB)))"
    "\<not> terminated (read_thd strerror_none session_A (take 1 script_AB) [])"
    by code_simp+
  have o: "owed (thdlist_head session_A @ joined (take 1 script_AB)) = 7"
    "length script_idle = 8"
    by code_simp+
  have p: "list_all proper (thdlist_head session_A @ joined (take 1 script_AB))"
    by (simp add: proper_def session_A_def joined_def script_AB_def req_A_def req_B_def)
  have ev2: "map (\<lambda>t. (tid t, err t, payload (fd t)))
       (signalled (final (read_thd strerror_none session_A (take 1 script_AB @ script_idle) [])))
       = [(1, Some 0, 12), (2, Some 0, 8)]"
    by code_simp
  from requests_get_requested_samples [OF h(1) h1, of strerror_none "[]"] a o p
  have "terminated (read_thd strerror_none session_A (take 1 script_AB @ script_idle) [])"
    by simp
  with requests_get_requested_samples [OF h, of strerror_none "[]"] ev ev2 a(5) o
  show ?thesis by simp
qed

text \<open>
  Without whole samples the claim fails. In \<open>script_short\<close> the first raw read brings 7
  bytes for \<open>req_B\<close>, which asks for 2 samples of 4 bytes: all 7 are written to its sink
  and count as one sample; the second read brings 4 more. \<open>req_B\<close> is signalled with
  outcome 0 and \<^verbatim>\<open>read_buffer\<close> returns 8, but its sink has received 11 bytes.

  And with samples of more than 1024 bytes nobody is served: \<^verbatim>\<open>max_size\<close> is 0, every
  raw read asks for 0 bytes, and after the eight passes of \<open>script_idle\<close>, in which the
  device has data ready, \<open>req_A\<close> is still in the list of \<open>session_wide\<close> with its
  \<open>nb\<close> of 3 and no data on its sink.
\<close>

theorem request_gets_more_than_requested:
  "nb req_B = 2 \<and> sample_size session_B = 4
   \<and> map (\<lambda>t. (tid t, err t, payload (fd t), read_buffer_return 2 4 t))
       (signalled (final (read_thd strerror_none session_B script_short []))) =
     [(2, Some 0, 11, Some 8)]
   \<and> sample_size session_wide = 2048
   \<and> \<not> terminated (read_thd strerror_none session_wide script_idle [])
   \<and> reads (acts (final (read_thd strerror_none session_wide script_idle [])))
       = [0, 0, 0, 0, 0, 0, 0, 0]
   \<and> signalled (final (read_thd strerror_none session_wide script_idle [])) = []
   \<and> map (\<lambda>t. (tid t, nb t, payload (fd t)))
       (thdlist (final (read_thd strerror_none session_wide script_idle []))) = [(1, 3, 0)]"
proof -
  have "map (\<lambda>t. (tid t, err t, payload (fd t)))
       (signalled (final (read_thd strerror_none session_B script_short []))) =
     [(2, Some 0, 11)]"
    by code_simp
  then obtain t where "signalled (final (read_thd strerror_none session_B script_short [])) = [t]"
    and "tid t = 2" and "err t = Some 0" and "payload (fd t) = 11"
    by auto
  then have short: "nb req_B = 2 \<and> sample_size session_B = 4
   \<and> map (\<lambda>t. (tid t, err t, payload (fd t), read_buffer_return 2 4 t))
       (signalled (final (read_thd strerror_none session_B script_short []))) =
     [(2, Some 0, 11, Some 8)]"
    by (simp add: read_buffer_return_def req_B_def session_B_def)
  have wide: "sample_size session_wide = 2048
   \<and> \<not> terminated (read_thd strerror_none session_wide script_idle [])
   \<and> reads (acts (final (read_thd strerror_none session_wide script_idle [])))
       = [0, 0, 0, 0, 0, 0, 0, 0]
   \<and> signalled (final (read_thd strerror_none session_wide script_idle [])) = []
   \<and> map (\<lambda>t. (tid t, nb t, payload (fd t)))
       (thdlist (final (read_thd strerror_none session_wide script_idle []))) = [(1, 3, 0)]"
    by code_simp
  from short wide show ?thesis by simp
qed

end
